theory Spec2Isabelle
  imports Complex_Main "HOL-Library.AList"
begin

section \<open>Data model of the alert manager\<close>

text \<open>
  The embedding follows \<^verbatim>\<open>alert_manager.py\<close>, \<^verbatim>\<open>config.py\<close> and
  \<^verbatim>\<open>zone_marker.py\<close>. Python floats (coordinates of the representative point,
  timestamps read from \<^verbatim>\<open>time.time()\<close>) are taken as exact reals; the integer
  vertices of a zone are embedded in the reals as Python does when it compares and
  divides them with floats. The clock is read once per call and is a parameter
  \<open>now\<close> of the functions that read it.
\<close>

type_synonym point = "real \<times> real"
type_synonym polygon = "point list"
type_synonym bbox = "real \<times> real \<times> real \<times> real"

text \<open>The dataclass \<^verbatim>\<open>Alert\<close>.\<close>

record alert =
  track_id :: int
  zone_id :: int
  entry_time :: real
  last_seen_in_zone :: real
  is_active :: bool

text \<open>
  A track as the tracker hands it over: the dictionary keys \<^verbatim>\<open>'track_id'\<close> and
  \<^verbatim>\<open>'bbox'\<close>, the only two the alert manager reads (\<open>trk_id\<close> and \<open>trk_bbox\<close>
  here, since \<open>track_id\<close> is a field of the alert).
\<close>

record track =
  trk_id :: int
  trk_bbox :: bbox

text \<open>
  The two dictionaries of \<^verbatim>\<open>AlertManager\<close>, as association lists in insertion
  order (the order in which Python iterates over a dictionary). A dictionary holds each
  key once: \<open>distinct (map fst (active_alerts m))\<close> is a hypothesis of the statements
  about a tick, and every tick keeps it.
\<close>

record manager =
  active_alerts :: "(int \<times> alert) list"
  track_positions :: "(int \<times> point) list"

definition init_manager :: manager where
  "init_manager = \<lparr>active_alerts = [], track_positions = []\<rparr>"

datatype error = IndexError | UnboundLocalError

definition ALARM_DURATION :: real where
  "ALARM_DURATION = 3"

section \<open>Geometry: ray casting\<close>

text \<open>
  The loop state of \<^verbatim>\<open>check_point_in_polygon\<close> is the previous vertex
  \<^verbatim>\<open>(p1x, p1y)\<close>, the flag \<^verbatim>\<open>inside\<close> and the local \<^verbatim>\<open>xinters\<close>, which is
  unbound (\<open>None\<close>) until its first assignment. Reading it unbound raises
  \<^verbatim>\<open>UnboundLocalError\<close>; \<^verbatim>\<open>p1x == p2x or x <= xinters\<close> reads it only when the
  first disjunct is false.
\<close>

type_synonym ray_state = "point \<times> bool \<times> real option"

fun edge_step :: "point \<Rightarrow> ray_state \<Rightarrow> point \<Rightarrow> error + ray_state" where
  "edge_step (x, y) ((p1x, p1y), inside, xinters) (p2x, p2y) =
     (if y > min p1y p2y then
        if y \<le> max p1y p2y then
          if x \<le> max p1x p2x then
            (let xinters' = (if p1y \<noteq> p2y
                             then Some ((y - p1y) * (p2x - p1x) / (p2y - p1y) + p1x)
                             else xinters)
             in if p1x = p2x then Inr ((p2x, p2y), \<not> inside, xinters')
                else (case xinters' of
                        None \<Rightarrow> Inl UnboundLocalError
                      | Some xi \<Rightarrow>
                          Inr ((p2x, p2y), (if x \<le> xi then \<not> inside else inside), xinters')))
          else Inr ((p2x, p2y), inside, xinters)
        else Inr ((p2x, p2y), inside, xinters)
      else Inr ((p2x, p2y), inside, xinters))"

text \<open>The loop \<^verbatim>\<open>for i in range(1, n + 1)\<close> with \<^verbatim>\<open>polygon[i % n]\<close>.\<close>

fun ray_loop :: "point \<Rightarrow> polygon \<Rightarrow> nat list \<Rightarrow> ray_state \<Rightarrow> error + ray_state" where
  "ray_loop pt poly [] st = Inr st"
| "ray_loop pt poly (i # is) st =
     (case edge_step pt st (poly ! (i mod length poly)) of
        Inl e \<Rightarrow> Inl e
      | Inr st' \<Rightarrow> ray_loop pt poly is st')"

text \<open>\<^verbatim>\<open>polygon[0]\<close> raises \<^verbatim>\<open>IndexError\<close> on an empty polygon.\<close>

definition check_point_in_polygon :: "point \<Rightarrow> polygon \<Rightarrow> error + bool" where
  "check_point_in_polygon pt poly =
     (case poly of
        [] \<Rightarrow> Inl IndexError
      | p0 # _ \<Rightarrow>
          (case ray_loop pt poly [1..<length poly + 1] (p0, False, None) of
             Inl e \<Rightarrow> Inl e
           | Inr (_, inside, _) \<Rightarrow> Inr inside))"

text \<open>
  The three nested conditions under which an iteration arrives at the test
  \<^verbatim>\<open>p1x == p2x or x <= xinters\<close>.
\<close>

definition reaches_toggle_test :: "point \<Rightarrow> point \<Rightarrow> point \<Rightarrow> bool" where
  "reaches_toggle_test pt p1 p2 \<longleftrightarrow>
     snd pt > min (snd p1) (snd p2) \<and> snd pt \<le> max (snd p1) (snd p2)
     \<and> fst pt \<le> max (fst p1) (fst p2)"

text \<open>
  The value assigned to \<^verbatim>\<open>xinters\<close> for an edge: the abscissa at which the line
  through \<open>p1\<close> and \<open>p2\<close> meets the height of the point.
\<close>

definition xinters_of :: "point \<Rightarrow> point \<Rightarrow> point \<Rightarrow> real" where
  "xinters_of pt p1 p2 =
     (snd pt - snd p1) * (fst p2 - fst p1) / (snd p2 - snd p1) + fst p1"

definition get_bbox_center :: "bbox \<Rightarrow> point" where
  "get_bbox_center bb =
     (case bb of (x1, y1, x2, y2) \<Rightarrow>
        (let center_x = (x1 + x2) / 2; center_y = (y1 + y2) / 2
         in (center_x, center_y)))"

text \<open>
  The edges the loop visits, in order: iteration \<open>i\<close> pairs \<^verbatim>\<open>polygon[i - 1]\<close> (the
  vertex kept in \<^verbatim>\<open>p1x, p1y\<close>) with \<^verbatim>\<open>polygon[i % n]\<close>. An edge toggles
  \<^verbatim>\<open>inside\<close> when the iteration arrives at the test and the test succeeds.
\<close>

definition polygon_edges :: "polygon \<Rightarrow> (point \<times> point) list" where
  "polygon_edges poly =
     map (\<lambda>i. (poly ! (i - 1), poly ! (i mod length poly))) [1..<length poly + 1]"

text \<open>The edges along a path of vertices that starts at \<open>p\<close>.\<close>

fun edge_path :: "point \<Rightarrow> point list \<Rightarrow> (point \<times> point) list" where
  "edge_path p [] = []"
| "edge_path p (q # qs) = (p, q) # edge_path q qs"

definition toggles :: "point \<Rightarrow> point \<times> point \<Rightarrow> bool" where
  "toggles pt e \<longleftrightarrow>
     reaches_toggle_test pt (fst e) (snd e) \<and>
     (fst (fst e) = fst (snd e) \<or> fst pt \<le> xinters_of pt (fst e) (snd e))"

section \<open>Convex polygons\<close>

text \<open>
  \<open>cross a b p\<close> is positive when \<open>p\<close> is strictly on the left of the line from
  \<open>a\<close> to \<open>b\<close>, negative when it is strictly on the right, zero on the line. A
  polygon is convex when its vertices are distinct and every vertex is on the same closed
  side of every edge: on the left for a counter-clockwise vertex order, on the right for
  a clockwise one. A point is strictly interior when it is strictly on that side of
  every edge. A point is strictly outside the bounding extent when all vertices are
  strictly on one side of it along one axis.
\<close>

definition cross :: "point \<Rightarrow> point \<Rightarrow> point \<Rightarrow> real" where
  "cross a b p = (fst b - fst a) * (snd p - snd a) - (snd b - snd a) * (fst p - fst a)"

definition convex_ccw :: "polygon \<Rightarrow> bool" where
  "convex_ccw poly \<longleftrightarrow>
     (\<forall>e\<in>set (polygon_edges poly). \<forall>v\<in>set poly. 0 \<le> cross (fst e) (snd e) v)"

definition convex_cw :: "polygon \<Rightarrow> bool" where
  "convex_cw poly \<longleftrightarrow>
     (\<forall>e\<in>set (polygon_edges poly). \<forall>v\<in>set poly. cross (fst e) (snd e) v \<le> 0)"

definition convex_polygon :: "polygon \<Rightarrow> bool" where
  "convex_polygon poly \<longleftrightarrow>
     3 \<le> length poly \<and> distinct poly \<and> (convex_ccw poly \<or> convex_cw poly)"

definition strictly_interior :: "point \<Rightarrow> polygon \<Rightarrow> bool" where
  "strictly_interior pt poly \<longleftrightarrow>
     (convex_ccw poly \<and> (\<forall>e\<in>set (polygon_edges poly). 0 < cross (fst e) (snd e) pt)) \<or>
     (convex_cw poly \<and> (\<forall>e\<in>set (polygon_edges poly). cross (fst e) (snd e) pt < 0))"

definition outside_extent :: "point \<Rightarrow> polygon \<Rightarrow> bool" where
  "outside_extent pt poly \<longleftrightarrow>
     (\<forall>v\<in>set poly. fst pt < fst v) \<or> (\<forall>v\<in>set poly. fst v < fst pt) \<or>
     (\<forall>v\<in>set poly. snd pt < snd v) \<or> (\<forall>v\<in>set poly. snd v < snd pt)"

section \<open>Zone penetration\<close>

text \<open>
  \<^verbatim>\<open>for zone_id, zone in enumerate(zones)\<close>: the first zone that contains the
  point is returned; \<^verbatim>\<open>(False, -1)\<close> when none does.
\<close>

fun zone_loop :: "point \<Rightarrow> (nat \<times> polygon) list \<Rightarrow> error + (bool \<times> int)" where
  "zone_loop c [] = Inr (False, - 1)"
| "zone_loop c ((zid, zone) # rest) =
     (case check_point_in_polygon c zone of
        Inl e \<Rightarrow> Inl e
      | Inr hit \<Rightarrow> if hit then Inr (True, int zid) else zone_loop c rest)"

text \<open>
  \<^verbatim>\<open>check_zone_penetration\<close> writes the center to \<^verbatim>\<open>track_positions\<close> before
  it tests the zones; the position cache is the only state it touches.
\<close>

definition check_zone_penetration ::
  "(int \<times> point) list \<Rightarrow> int \<Rightarrow> bbox \<Rightarrow> polygon list
     \<Rightarrow> error + ((bool \<times> int) \<times> (int \<times> point) list)" where
  "check_zone_penetration positions tid bb zones =
     (let center_point = get_bbox_center bb;
          positions' = AList.update tid center_point positions
      in case zone_loop center_point (enumerate 0 zones) of
           Inl e \<Rightarrow> Inl e
         | Inr r \<Rightarrow> Inr (r, positions'))"

text \<open>
  The outcome of \<^verbatim>\<open>check_zone_penetration\<close> without the cache write, and its
  first component \<^verbatim>\<open>penetrated\<close>: \<open>Inr True\<close> when the box center is inside some
  zone, \<open>Inr False\<close> when it is outside every zone.
\<close>

definition zone_of :: "bbox \<Rightarrow> polygon list \<Rightarrow> error + (bool \<times> int)" where
  "zone_of bb zones = zone_loop (get_bbox_center bb) (enumerate 0 zones)"

definition penetration_of :: "bbox \<Rightarrow> polygon list \<Rightarrow> error + bool" where
  "penetration_of bb zones =
     (case zone_of bb zones of Inl e \<Rightarrow> Inl e | Inr (p, _) \<Rightarrow> Inr p)"

section \<open>One tick: \<^verbatim>\<open>update_alerts\<close>\<close>

text \<open>
  First loop (\<^verbatim>\<open>for track in tracks\<close>): a penetrating track creates its alert or
  refreshes \<^verbatim>\<open>last_seen_in_zone\<close> and \<^verbatim>\<open>is_active\<close> of the alert it has. The
  local \<^verbatim>\<open>current_zone_occupancy\<close> is written and never read, and is left out.
\<close>

fun penetration_loop ::
  "real \<Rightarrow> polygon list \<Rightarrow> track list \<Rightarrow> manager \<Rightarrow> error + manager" where
  "penetration_loop current_time zones [] m = Inr m"
| "penetration_loop current_time zones (t # ts) m =
     (case check_zone_penetration (track_positions m) (trk_id t) (trk_bbox t) zones of
        Inl e \<Rightarrow> Inl e
      | Inr ((penetrated, zid), positions') \<Rightarrow>
          (let m1 = m\<lparr>track_positions := positions'\<rparr>;
               m2 = (if penetrated then
                       (case map_of (active_alerts m1) (trk_id t) of
                          None \<Rightarrow>
                            m1\<lparr>active_alerts :=
                                 AList.update (trk_id t)
                                   \<lparr>track_id = trk_id t, zone_id = zid,
                                    entry_time = current_time,
                                    last_seen_in_zone = current_time,
                                    is_active = True\<rparr>
                                   (active_alerts m1)\<rparr>
                        | Some a \<Rightarrow>
                            m1\<lparr>active_alerts :=
                                 AList.update (trk_id t)
                                   (a\<lparr>last_seen_in_zone := current_time, is_active := True\<rparr>)
                                   (active_alerts m1)\<rparr>)
                     else m1)
           in penetration_loop current_time zones ts m2))"

text \<open>
  The body of the second loop for one item \<^verbatim>\<open>(track_id, alert)\<close> of
  \<^verbatim>\<open>active_alerts\<close>: it returns the alert (with \<^verbatim>\<open>is_active\<close> possibly cleared in
  place), the position cache, and whether the id was appended to
  \<^verbatim>\<open>alerts_to_remove\<close>.
\<close>

definition departure_step ::
  "real \<Rightarrow> track list \<Rightarrow> polygon list \<Rightarrow> int \<times> alert \<Rightarrow> (int \<times> point) list
     \<Rightarrow> error + (alert \<times> (int \<times> point) list \<times> bool)" where
  "departure_step current_time tracks zones item positions =
     (case item of (tid, a) \<Rightarrow>
        if tid \<notin> trk_id ` set tracks then
          (let time_since_last_seen = current_time - last_seen_in_zone a
           in Inr (a, positions, time_since_last_seen \<ge> ALARM_DURATION))
        else
          (case find (\<lambda>t. trk_id t = tid) tracks of
             None \<Rightarrow> Inr (a, positions, False)
           | Some current_track \<Rightarrow>
               (case check_zone_penetration positions tid (trk_bbox current_track) zones of
                  Inl e \<Rightarrow> Inl e
                | Inr ((penetrated, _), positions') \<Rightarrow>
                    if \<not> penetrated then
                      (let a' = a\<lparr>is_active := False\<rparr>
                       in if tid \<in> fst ` set positions' then
                            (let time_since_left = current_time - last_seen_in_zone a'
                             in Inr (a', positions', time_since_left \<ge> ALARM_DURATION))
                          else Inr (a', positions', False))
                    else Inr (a, positions', False))))"

text \<open>
  Second loop (\<^verbatim>\<open>for track_id, alert in self.active_alerts.items()\<close>): the items
  are visited in order; the result is the list of items after the in-place writes, the
  position cache and \<^verbatim>\<open>alerts_to_remove\<close>.
\<close>

fun departure_loop ::
  "real \<Rightarrow> track list \<Rightarrow> polygon list \<Rightarrow> (int \<times> alert) list \<Rightarrow> (int \<times> point) list
     \<Rightarrow> error + ((int \<times> alert) list \<times> (int \<times> point) list \<times> int list)" where
  "departure_loop current_time tracks zones [] positions = Inr ([], positions, [])"
| "departure_loop current_time tracks zones (item # items) positions =
     (case departure_step current_time tracks zones item positions of
        Inl e \<Rightarrow> Inl e
      | Inr (a', positions1, expired) \<Rightarrow>
          (case departure_loop current_time tracks zones items positions1 of
             Inl e \<Rightarrow> Inl e
           | Inr (items', positions2, alerts_to_remove) \<Rightarrow>
               Inr ((fst item, a') # items', positions2,
                    (if expired then [fst item] else []) @ alerts_to_remove)))"

text \<open>
  Third loop (\<^verbatim>\<open>for track_id in alerts_to_remove\<close>): \<^verbatim>\<open>del\<close> under a membership
  guard, which is \<open>AList.delete\<close>.
\<close>

fun remove_expired :: "int list \<Rightarrow> manager \<Rightarrow> manager" where
  "remove_expired [] m = m"
| "remove_expired (tid # rest) m =
     remove_expired rest
       (m\<lparr>active_alerts := AList.delete tid (active_alerts m),
          track_positions := AList.delete tid (track_positions m)\<rparr>)"

text \<open>Last loop: the cached positions of ids that are not observed are dropped.\<close>

definition cleanup_positions :: "track list \<Rightarrow> manager \<Rightarrow> manager" where
  "cleanup_positions tracks m =
     (let disappeared_tracks =
            filter (\<lambda>k. k \<notin> trk_id ` set tracks) (map fst (track_positions m))
      in m\<lparr>track_positions := fold AList.delete disappeared_tracks (track_positions m)\<rparr>)"

text \<open>
  \<^verbatim>\<open>update_alerts\<close> returns the key set of \<^verbatim>\<open>active_alerts\<close>; the embedding
  returns it together with the manager after the tick. An exception of a zone test
  leaves the call, and the result is \<open>Inl\<close>.
\<close>

definition update_alerts ::
  "real \<Rightarrow> track list \<Rightarrow> polygon list \<Rightarrow> manager \<Rightarrow> error + (int set \<times> manager)" where
  "update_alerts current_time tracks zones m =
     (case penetration_loop current_time zones tracks m of
        Inl e \<Rightarrow> Inl e
      | Inr m1 \<Rightarrow>
          (case departure_loop current_time tracks zones (active_alerts m1) (track_positions m1) of
             Inl e \<Rightarrow> Inl e
           | Inr (items, positions, alerts_to_remove) \<Rightarrow>
               (let m2 = remove_expired alerts_to_remove
                           \<lparr>active_alerts = items, track_positions = positions\<rparr>;
                    m3 = cleanup_positions tracks m2
                in Inr (fst ` set (active_alerts m3), m3))))"

text \<open>A run of ticks, each with its clock reading, observations and zone list.\<close>

type_synonym tick = "real \<times> track list \<times> polygon list"

fun run_ticks :: "manager \<Rightarrow> tick list \<Rightarrow> error + manager" where
  "run_ticks m [] = Inr m"
| "run_ticks m ((now, tracks, zones) # rest) =
     (case update_alerts now tracks zones m of
        Inl e \<Rightarrow> Inl e
      | Inr (_, m') \<Rightarrow> run_ticks m' rest)"

text \<open>
  The managers reachable from a fresh \<^verbatim>\<open>AlertManager()\<close> by calls of
  \<^verbatim>\<open>update_alerts\<close> that return and whose clock readings do not decrease;
  \<open>reachable_at t m\<close> carries the clock reading \<open>t\<close> of the last call (any \<open>t\<close>
  before the first).
\<close>

inductive reachable_at :: "real \<Rightarrow> manager \<Rightarrow> bool" where
  fresh: "reachable_at t init_manager"
| tick: "reachable_at t m \<Longrightarrow> t \<le> now \<Longrightarrow>
         update_alerts now tracks zones m = Inr (out, m') \<Longrightarrow> reachable_at now m'"

section \<open>Status query\<close>

definition get_alert_status :: "real \<Rightarrow> manager \<Rightarrow> int \<Rightarrow> bool \<times> real" where
  "get_alert_status now m tid =
     (case map_of (active_alerts m) tid of
        None \<Rightarrow> (False, 0)
      | Some alert \<Rightarrow>
          if is_active alert then (True, 0)
          else (let time_since_left = now - last_seen_in_zone alert;
                    time_remaining = max 0 (ALARM_DURATION - time_since_left)
                in (time_remaining > 0, time_remaining)))"

definition get_alerted_tracks :: "manager \<Rightarrow> int set" where
  "get_alerted_tracks m = fst ` set (active_alerts m)"

section \<open>Zone registration and persistence\<close>

text \<open>
  \<^verbatim>\<open>ZoneMarker\<close> keeps the points clicked so far and the zones marked so far
  (\<^verbatim>\<open>self.zones\<close>, here \<open>marked_zones\<close>, since \<open>zones\<close> names the zone list of a
  tick). The file \<^verbatim>\<open>restricted_zones.json\<close> is
  taken as far as \<^verbatim>\<open>Config.load_zones\<close> reads it: it is missing, or it is a document
  whose key \<^verbatim>\<open>'zones'\<close> is absent or holds a list of polygons. Messages printed to
  the console are left out.
\<close>

datatype mouse_event = EVENT_LBUTTONDOWN | EVENT_RBUTTONDOWN | EVENT_OTHER

record zone_marker =
  current_zone_points :: "point list"
  marked_zones :: "polygon list"

datatype zones_file = FileNotFound | Document "polygon list option"

fun load_zones :: "zones_file \<Rightarrow> polygon list" where
  "load_zones FileNotFound = []"
| "load_zones (Document None) = []"
| "load_zones (Document (Some zs)) = zs"

definition save_zones :: "polygon list \<Rightarrow> zones_file" where
  "save_zones zs = Document (Some zs)"

text \<open>
  \<^verbatim>\<open>mark_zones_callback\<close>: a left click appends a point; a right click with at
  least three points appends the zone, clears the points and saves; with fewer it only
  prints \<^verbatim>\<open>"Need at least 3 points to create a zone"\<close>.
\<close>

definition mark_zones_callback ::
  "mouse_event \<Rightarrow> real \<Rightarrow> real \<Rightarrow> zone_marker \<times> zones_file \<Rightarrow> zone_marker \<times> zones_file" where
  "mark_zones_callback event x y st =
     (case st of (mk, file) \<Rightarrow>
        if event = EVENT_LBUTTONDOWN then
          (mk\<lparr>current_zone_points := current_zone_points mk @ [(x, y)]\<rparr>, file)
        else if event = EVENT_RBUTTONDOWN then
          (if length (current_zone_points mk) \<ge> 3 then
             (let mk' = mk\<lparr>marked_zones := marked_zones mk @ [current_zone_points mk],
                            current_zone_points := []\<rparr>
              in (mk', save_zones (marked_zones mk')))
           else (mk, file))
        else (mk, file))"

section \<open>The scenario of the specification\<close>

text \<open>
  The square zone, track 7 inside it (box \<open>(0,0,10,10)\<close>, center \<open>(5,5)\<close>) and
  outside it (box \<open>(20,20,30,30)\<close>, center \<open>(25,25)\<close>), the alert created for it
  at time 0, and the same alert after the track has left.
\<close>

definition scenario_zone :: polygon where
  "scenario_zone = [(0, 0), (10, 0), (10, 10), (0, 10)]"

definition track_inside :: track where
  "track_inside = \<lparr>trk_id = 7, trk_bbox = (0, 0, 10, 10)\<rparr>"

definition track_outside :: track where
  "track_outside = \<lparr>trk_id = 7, trk_bbox = (20, 20, 30, 30)\<rparr>"

definition entered_alert :: alert where
  "entered_alert =
     \<lparr>track_id = 7, zone_id = 0, entry_time = 0, last_seen_in_zone = 0, is_active = True\<rparr>"

definition departed_alert :: alert where
  "departed_alert =
     \<lparr>track_id = 7, zone_id = 0, entry_time = 0, last_seen_in_zone = 0, is_active = False\<rparr>"

definition manager_entered :: manager where
  "manager_entered = \<lparr>active_alerts = [(7, entered_alert)], track_positions = [(7, (5, 5))]\<rparr>"

definition manager_departed :: manager where
  "manager_departed = \<lparr>active_alerts = [(7, departed_alert)], track_positions = [(7, (25, 25))]\<rparr>"

section \<open>Lemmas about the ray casting loop\<close>

lemma edge_step_reached:
  "reaches_toggle_test pt p1 p2 \<Longrightarrow>
   edge_step pt (p1, ins, xi) p2 =
     Inr (p2, (if fst p1 = fst p2 \<or> fst pt \<le> xinters_of pt p1 p2 then \<not> ins else ins),
          Some (xinters_of pt p1 p2))"
  by (cases pt; cases p1; cases p2) (auto simp: reaches_toggle_test_def xinters_of_def Let_def)

lemma edge_step_skipped:
  "\<not> reaches_toggle_test pt p1 p2 \<Longrightarrow> edge_step pt (p1, ins, xi) p2 = Inr (p2, ins, xi)"
  by (cases pt; cases p1; cases p2) (auto simp: reaches_toggle_test_def)

lemma ray_loop_returns:
  "\<exists>st'. ray_loop pt poly is st = Inr st'"
proof (induction "is" arbitrary: st)
  case Nil
  show ?case by (rule exI[of _ st]) simp
next
  case (Cons i "is")
  obtain p1 ins xi where st: "st = (p1, ins, xi)" by (cases st)
  obtain st1 where "edge_step pt st (poly ! (i mod length poly)) = Inr st1"
    using edge_step_reached[of pt p1 "poly ! (i mod length poly)" ins xi]
      edge_step_skipped[of pt p1 "poly ! (i mod length poly)" ins xi] st
    by (cases "reaches_toggle_test pt p1 (poly ! (i mod length poly))") auto
  with Cons.IH[of st1] show ?case by simp
qed

lemma check_point_in_polygon_returns:
  "poly \<noteq> [] \<Longrightarrow> \<exists>b. check_point_in_polygon pt poly = Inr b"
proof -
  assume "poly \<noteq> []"
  then obtain p0 ps where p: "poly = p0 # ps" by (cases poly) auto
  from ray_loop_returns[of pt poly "[1..<length poly + 1]" "(p0, False, None)"]
  obtain st' where "ray_loop pt poly [1..<length poly + 1] (p0, False, None) = Inr st'" by blast
  with p show ?thesis
    by (cases st') (simp add: check_point_in_polygon_def)
qed

lemma edge_step_toggles:
  "\<exists>xi'. edge_step pt (p1, ins, xi) p2 =
     Inr (p2, (if toggles pt (p1, p2) then \<not> ins else ins), xi')"
proof (cases "reaches_toggle_test pt p1 p2")
  case True
  from edge_step_reached[OF True, of ins xi] True show ?thesis
    by (simp add: toggles_def)
next
  case False
  from edge_step_skipped[OF False, of ins xi] False show ?thesis
    by (simp add: toggles_def)
qed

lemma ray_loop_parity:
  "ray_loop pt poly is (p1, ins, xi) = Inr st' \<Longrightarrow>
   fst (snd st') =
     (ins \<noteq> odd (length (filter (toggles pt)
        (edge_path p1 (map (\<lambda>i. poly ! (i mod length poly)) is)))))"
proof (induction "is" arbitrary: p1 ins xi)
  case Nil
  then show ?case by auto
next
  case (Cons i "is")
  let ?p2 = "poly ! (i mod length poly)"
  from edge_step_toggles[of pt p1 ins xi ?p2] obtain xi' where
    e: "edge_step pt (p1, ins, xi) ?p2 =
          Inr (?p2, (if toggles pt (p1, ?p2) then \<not> ins else ins), xi')" by blast
  with Cons.prems have
    "ray_loop pt poly is (?p2, (if toggles pt (p1, ?p2) then \<not> ins else ins), xi') = Inr st'"
    by simp
  from Cons.IH[OF this] show ?case by auto
qed

lemma edge_path_upt:
  "edge_path (g k) (map g [Suc k..<m]) = map (\<lambda>i. (g (i - 1), g i)) [Suc k..<m]"
proof (induction "m - Suc k" arbitrary: k)
  case 0
  then show ?case by simp
next
  case (Suc d)
  then have lt: "Suc k < m" by simp
  then have u: "[Suc k..<m] = Suc k # [Suc (Suc k)..<m]" by (rule upt_conv_Cons)
  from Suc.hyps(2) have "d = m - Suc (Suc k)" by simp
  from Suc.hyps(1)[OF this] show ?case unfolding u by simp
qed

lemma polygon_edges_path:
  "poly \<noteq> [] \<Longrightarrow>
   edge_path (hd poly) (map (\<lambda>i. poly ! (i mod length poly)) [1..<length poly + 1]) =
   polygon_edges poly"
proof -
  assume ne: "poly \<noteq> []"
  let ?g = "\<lambda>i. poly ! (i mod length poly)"
  have h: "hd poly = ?g 0" using ne by (simp add: hd_conv_nth)
  have "edge_path (?g 0) (map ?g [Suc 0..<length poly + 1]) =
        map (\<lambda>i. (?g (i - 1), ?g i)) [Suc 0..<length poly + 1]"
    by (rule edge_path_upt)
  also have "\<dots> = map (\<lambda>i. (poly ! (i - 1), poly ! (i mod length poly))) [Suc 0..<length poly + 1]"
    by (rule map_cong) auto
  finally show ?thesis by (simp add: h polygon_edges_def)
qed

lemma check_point_in_polygon_parity:
  assumes ne: "poly \<noteq> []"
  shows "check_point_in_polygon pt poly =
           Inr (odd (length (filter (toggles pt) (polygon_edges poly))))"
proof -
  from ne obtain p0 ps where p: "poly = p0 # ps" by (cases poly) auto
  from ray_loop_returns[of pt poly "[1..<length poly + 1]" "(p0, False, None)"]
  obtain st' where r: "ray_loop pt poly [1..<length poly + 1] (p0, False, None) = Inr st'" by blast
  from ray_loop_parity[OF r] polygon_edges_path[OF ne] p
  have "fst (snd st') = odd (length (filter (toggles pt) (polygon_edges poly)))" by simp
  with r p show ?thesis
    by (cases st') (simp add: check_point_in_polygon_def)
qed

lemma length_polygon_edges [simp]: "length (polygon_edges poly) = length poly"
  unfolding polygon_edges_def by (simp only: length_map length_upt add_diff_cancel_right')

lemma nth_polygon_edges:
  "i < length poly \<Longrightarrow> polygon_edges poly ! i = (poly ! i, poly ! (Suc i mod length poly))"
  by (simp add: polygon_edges_def del: upt_Suc)

lemma in_polygon_edges:
  "e \<in> set (polygon_edges poly) \<longleftrightarrow>
     (\<exists>i<length poly. e = (poly ! i, poly ! (Suc i mod length poly)))"
proof
  assume "e \<in> set (polygon_edges poly)"
  then obtain i where "i < length (polygon_edges poly)" "polygon_edges poly ! i = e"
    by (auto simp: in_set_conv_nth)
  then show "\<exists>i<length poly. e = (poly ! i, poly ! (Suc i mod length poly))"
    by (auto simp: nth_polygon_edges)
next
  assume "\<exists>i<length poly. e = (poly ! i, poly ! (Suc i mod length poly))"
  then obtain i where i: "i < length poly" "e = (poly ! i, poly ! (Suc i mod length poly))" by blast
  then have "polygon_edges poly ! i = e" by (simp add: nth_polygon_edges)
  with i(1) show "e \<in> set (polygon_edges poly)"
    by (metis length_polygon_edges nth_mem)
qed

lemma polygon_edges_vertices:
  "e \<in> set (polygon_edges poly) \<Longrightarrow> fst e \<in> set poly \<and> snd e \<in> set poly"
proof -
  assume "e \<in> set (polygon_edges poly)"
  then obtain i where i: "i < length poly" "e = (poly ! i, poly ! (Suc i mod length poly))"
    by (auto simp: in_polygon_edges)
  from i(1) have "0 < length poly" by linarith
  then have "Suc i mod length poly < length poly" by (rule mod_less_divisor)
  with i show ?thesis by simp
qed

text \<open>Parity of the edges that change side along a closed path.\<close>

lemma path_parity:
  fixes b :: "point \<Rightarrow> bool"
  shows "odd (length (filter (\<lambda>e. b (fst e) \<noteq> b (snd e)) (edge_path p qs))) =
   (b p \<noteq> b (last (p # qs)))"
  by (induction qs arbitrary: p) auto

lemma closed_path_even:
  fixes b :: "point \<Rightarrow> bool"
  assumes ne: "poly \<noteq> []"
  shows "even (length (filter (\<lambda>e. b (fst e) \<noteq> b (snd e)) (polygon_edges poly)))"
proof -
  let ?qs = "map (\<lambda>i. poly ! (i mod length poly)) [1..<length poly + 1]"
  have "last (hd poly # ?qs) = hd poly"
    using ne by (simp add: hd_conv_nth)
  with path_parity[of b "hd poly" ?qs] polygon_edges_path[OF ne] show ?thesis by simp
qed

subsection \<open>Points outside the bounding extent\<close>

lemma straddle_iff:
  fixes y :: real
  shows "(min p1y p2y < y \<and> y \<le> max p1y p2y) \<longleftrightarrow> ((p1y < y) \<noteq> (p2y < y))"
  by auto

lemma reaches_toggle_test_iff:
  "reaches_toggle_test pt p1 p2 \<longleftrightarrow>
     ((snd p1 < snd pt) \<noteq> (snd p2 < snd pt)) \<and> fst pt \<le> max (fst p1) (fst p2)"
  unfolding reaches_toggle_test_def using straddle_iff[of "snd p1" "snd p2" "snd pt"] by auto

lemma xinters_of_param:
  "xinters_of pt p1 p2 =
     fst p1 + (snd pt - snd p1) / (snd p2 - snd p1) * (fst p2 - fst p1)"
  by (simp add: xinters_of_def)

lemma straddle_param:
  fixes y :: real
  assumes "(p1y < y) \<noteq> (p2y < y)"
  shows "0 \<le> (y - p1y) / (p2y - p1y) \<and> (y - p1y) / (p2y - p1y) \<le> 1"
proof (cases "p1y < y")
  case True
  with assms have "y \<le> p2y" by auto
  with True show ?thesis by (simp add: divide_simps)
next
  case False
  with assms have "p2y < y" by auto
  with False show ?thesis by (simp add: divide_simps)
qed

lemma xinters_ge_min:
  assumes "(snd p1 < snd pt) \<noteq> (snd p2 < snd pt)"
  shows "min (fst p1) (fst p2) \<le> xinters_of pt p1 p2"
proof -
  let ?t = "(snd pt - snd p1) / (snd p2 - snd p1)"
  from straddle_param[OF assms] have t: "0 \<le> ?t" "?t \<le> 1" by simp_all
  show ?thesis
  proof (cases "fst p1 \<le> fst p2")
    case True
    with t(1) have "0 \<le> ?t * (fst p2 - fst p1)" by (intro mult_nonneg_nonneg) simp_all
    then have "fst p1 \<le> xinters_of pt p1 p2" unfolding xinters_of_param by linarith
    with True show ?thesis by simp
  next
    case False
    then have "fst p2 - fst p1 \<le> 0" by simp
    with t(2) have "1 * (fst p2 - fst p1) \<le> ?t * (fst p2 - fst p1)"
      by (intro mult_right_mono_neg) simp_all
    then have "fst p2 - fst p1 \<le> ?t * (fst p2 - fst p1)" by (simp only: mult_1_left)
    then have "fst p2 \<le> xinters_of pt p1 p2" unfolding xinters_of_param by linarith
    with False show ?thesis by simp
  qed
qed

lemma toggles_left_of_all:
  assumes "fst pt < fst p1" "fst pt < fst p2"
  shows "toggles pt (p1, p2) \<longleftrightarrow> ((snd p1 < snd pt) \<noteq> (snd p2 < snd pt))"
proof (cases "(snd p1 < snd pt) \<noteq> (snd p2 < snd pt)")
  case True
  from xinters_ge_min[OF True] assms have "fst pt \<le> xinters_of pt p1 p2" by simp
  with True assms show ?thesis
    by (simp add: toggles_def reaches_toggle_test_iff max_def)
next
  case False
  then show ?thesis
    by (simp add: toggles_def reaches_toggle_test_iff)
qed

lemma outside_extent_false:
  assumes ne: "poly \<noteq> []" and out: "outside_extent pt poly"
  shows "check_point_in_polygon pt poly = Inr False"
proof -
  have "even (length (filter (toggles pt) (polygon_edges poly)))"
  proof -
    consider (left) "\<forall>v\<in>set poly. fst pt < fst v" | (other) "(\<forall>v\<in>set poly. fst v < fst pt) \<or>
     (\<forall>v\<in>set poly. snd pt < snd v) \<or> (\<forall>v\<in>set poly. snd v < snd pt)"
      using out by (auto simp: outside_extent_def)
    then show ?thesis
    proof cases
      case left
      have "filter (toggles pt) (polygon_edges poly) =
            filter (\<lambda>e. (snd (fst e) < snd pt) \<noteq> (snd (snd e) < snd pt)) (polygon_edges poly)"
      proof (rule filter_cong[OF refl])
        fix e assume "e \<in> set (polygon_edges poly)"
        from polygon_edges_vertices[OF this] left
        have "fst pt < fst (fst e)" "fst pt < fst (snd e)" by auto
        from toggles_left_of_all[OF this]
        show "toggles pt e = ((snd (fst e) < snd pt) \<noteq> (snd (snd e) < snd pt))" by simp
      qed
      with closed_path_even[OF ne, of "\<lambda>v. snd v < snd pt"] show ?thesis by simp
    next
      case other
      have "filter (toggles pt) (polygon_edges poly) = []"
      proof (simp only: filter_empty_conv, rule ballI)
        fix e assume "e \<in> set (polygon_edges poly)"
        from polygon_edges_vertices[OF this] have "fst e \<in> set poly" "snd e \<in> set poly" by simp_all
        with other have
          "(fst (fst e) < fst pt \<and> fst (snd e) < fst pt) \<or>
           (snd pt < snd (fst e) \<and> snd pt < snd (snd e)) \<or>
           (snd (fst e) < snd pt \<and> snd (snd e) < snd pt)" by blast
        then show "\<not> toggles pt e"
          by (auto simp: toggles_def reaches_toggle_test_iff max_def)
      qed
      then show ?thesis by simp
    qed
  qed
  with check_point_in_polygon_parity[OF ne, of pt] show ?thesis by simp
qed

subsection \<open>Points strictly inside a convex polygon\<close>

text \<open>
  For a counter-clockwise convex polygon and a point strictly on the left of every edge,
  the edges that toggle are the edges that go upward across the height of the point
  (\<open>toggles_upward\<close>): the point is on the left of such an edge, hence before its
  crossing, and on the right of the crossing of an edge that goes downward. There is
  such an edge (\<open>upward_edge_exists\<close>), since neither the highest nor the lowest vertex
  can have the point beyond it, and there is only one (\<open>upward_edge_unique\<close>), so
  the flag is toggled once. A clockwise polygon is the reverse of a counter-clockwise
  one, and reversing the vertex order does not change the count.
\<close>

lemma xinters_le_max:
  assumes "(snd p1 < snd pt) \<noteq> (snd p2 < snd pt)"
  shows "xinters_of pt p1 p2 \<le> max (fst p1) (fst p2)"
proof -
  let ?t = "(snd pt - snd p1) / (snd p2 - snd p1)"
  from straddle_param[OF assms] have t: "0 \<le> ?t" "?t \<le> 1" by simp_all
  show ?thesis
  proof (cases "fst p1 \<le> fst p2")
    case True
    then have "0 \<le> fst p2 - fst p1" by simp
    with t(2) have "?t * (fst p2 - fst p1) \<le> 1 * (fst p2 - fst p1)"
      by (intro mult_right_mono) simp_all
    then have "?t * (fst p2 - fst p1) \<le> fst p2 - fst p1" by (simp only: mult_1_left)
    then have "xinters_of pt p1 p2 \<le> fst p2" unfolding xinters_of_param by linarith
    with True show ?thesis by simp
  next
    case False
    then have "fst p2 - fst p1 \<le> 0" by simp
    with t(1) have "?t * (fst p2 - fst p1) \<le> 0"
      by (intro mult_nonneg_nonpos) simp_all
    then have "xinters_of pt p1 p2 \<le> fst p1" unfolding xinters_of_param by linarith
    with False show ?thesis by simp
  qed
qed

text \<open>The side of the line through a non-horizontal edge, read off the crossing.\<close>

lemma cross_xinters:
  assumes "snd a \<noteq> snd b"
  shows "cross a b pt = (snd b - snd a) * (xinters_of pt a b - fst pt)"
  using assms by (simp add: cross_def xinters_of_def field_simps)

lemma toggles_upward:
  assumes l: "0 < cross a b pt"
  shows "toggles pt (a, b) \<longleftrightarrow> snd a < snd pt \<and> snd pt \<le> snd b"
proof (cases "(snd a < snd pt) \<noteq> (snd b < snd pt)")
  case False
  then show ?thesis by (auto simp: toggles_def reaches_toggle_test_iff)
next
  case True
  then have ne: "snd a \<noteq> snd b" by auto
  from l have c: "0 < (snd b - snd a) * (xinters_of pt a b - fst pt)"
    by (simp only: cross_xinters[OF ne])
  show ?thesis
  proof (cases "snd a < snd pt")
    case up: True
    with True have "snd pt \<le> snd b" by auto
    with up have "0 < snd b - snd a" by simp
    with c have "fst pt < xinters_of pt a b" by (simp add: zero_less_mult_iff)
    with xinters_le_max[OF True] True up show ?thesis
      by (auto simp: toggles_def reaches_toggle_test_iff)
  next
    case down: False
    with True have "snd b < snd pt" "snd pt \<le> snd a" by auto
    then have "snd b - snd a < 0" by simp
    with c have lt: "xinters_of pt a b < fst pt" by (simp add: zero_less_mult_iff)
    have "\<not> toggles pt (a, b)"
    proof
      assume t: "toggles pt (a, b)"
      with lt have e: "fst a = fst b" and r: "fst pt \<le> max (fst a) (fst b)"
        by (auto simp: toggles_def reaches_toggle_test_iff)
      from e have "xinters_of pt a b = fst a" by (simp add: xinters_of_def)
      with lt e r show False by simp
    qed
    with down show ?thesis by simp
  qed
qed

text \<open>
  Indices on the cycle: every index has a predecessor, and a cyclic sequence of booleans
  that is not constant steps from true to false somewhere.
\<close>

lemma pred_index:
  assumes "k < n"
  shows "(k + n - 1) mod n < n \<and> Suc ((k + n - 1) mod n) mod n = k"
proof (cases k)
  case 0
  with assms show ?thesis by simp
next
  case (Suc k')
  with assms have "(k + n - 1) mod n = k'" by simp
  with Suc assms show ?thesis by simp
qed

lemma cyclic_change:
  assumes i0: "i0 < n" "b i0" and j0: "j0 < n" "\<not> b j0"
  shows "\<exists>i<n. b i \<and> \<not> b (Suc i mod n)"
proof (rule ccontr)
  assume "\<not> ?thesis"
  then have step: "\<And>i. i < n \<Longrightarrow> b i \<Longrightarrow> b (Suc i mod n)" by blast
  from i0 have n: "0 < n" by simp
  have all: "b ((i0 + k) mod n)" for k
  proof (induction k)
    case 0
    with i0 show ?case by simp
  next
    case (Suc k)
    from n have "(i0 + k) mod n < n" by simp
    from step[OF this Suc] show ?case by (simp add: mod_Suc_eq)
  qed
  from i0 j0 have "(i0 + (j0 + n - i0)) mod n = j0" by simp
  with all[of "j0 + n - i0"] j0 show False by simp
qed

text \<open>
  At the vertex \<open>m\<close> that is highest (and rightmost among the highest), with neighbours
  \<open>u\<close> before and \<open>w\<close> after it, a point above \<open>m\<close> cannot be strictly on the left of
  both edges at \<open>m\<close> when \<open>w\<close> is not on the right of the edge from \<open>u\<close> to \<open>m\<close>; the
  same at the lowest (and leftmost) vertex for a point not above it.
\<close>

lemma corner_top:
  assumes c1: "0 < cross u m p" and c2: "0 < cross m w p" and c3: "0 \<le> cross u m w"
    and uy: "snd u \<le> snd m" and wy: "snd w \<le> snd m" and py: "snd m < snd p"
    and wx: "snd w = snd m \<Longrightarrow> fst w \<le> fst m"
  shows False
proof -
  define u1 u2 w1 w2 p1 p2 where
    "u1 = fst u - fst m" and "u2 = snd u - snd m" and
    "w1 = fst w - fst m" and "w2 = snd w - snd m" and
    "p1 = fst p - fst m" and "p2 = snd p - snd m"
  note d = u1_def u2_def w1_def w2_def p1_def p2_def
  have e1: "cross u m p = u2 * p1 - u1 * p2"
    and e2: "cross m w p = w1 * p2 - w2 * p1"
    and e3: "cross u m w = u2 * w1 - u1 * w2"
    by (simp_all add: cross_def d algebra_simps)
  from uy wy py have s: "u2 \<le> 0" "w2 \<le> 0" "0 < p2" by (simp_all add: d)
  from c1 c2 c3 have f1: "0 < u2 * p1 - u1 * p2" and f2: "0 < w1 * p2 - w2 * p1"
    and f3: "0 \<le> u2 * w1 - u1 * w2" by (simp_all only: e1 e2 e3)
  have A: "0 \<le> (- w2) * (u2 * p1 - u1 * p2)"
    using s(2) f1 by (intro mult_nonneg_nonneg) simp_all
  have B: "0 \<le> (- u2) * (w1 * p2 - w2 * p1)"
    using s(1) f2 by (intro mult_nonneg_nonneg) simp_all
  have sum: "(- w2) * (u2 * p1 - u1 * p2) + (- u2) * (w1 * p2 - w2 * p1) =
             - (p2 * (u2 * w1 - u1 * w2))"
    by (simp add: algebra_simps)
  have "0 \<le> p2 * (u2 * w1 - u1 * w2)"
    using s(3) f3 by (intro mult_nonneg_nonneg) simp_all
  with A B sum have "(- w2) * (u2 * p1 - u1 * p2) = 0" by linarith
  with f1 have "w2 = 0" by simp
  with wx have "w1 \<le> 0" by (simp add: d)
  with s(3) have "w1 * p2 \<le> 0" by (intro mult_nonpos_nonneg) simp_all
  with f2 \<open>w2 = 0\<close> show False by simp
qed

lemma corner_bottom:
  assumes c1: "0 < cross u m p" and c2: "0 < cross m w p" and c3: "0 \<le> cross u m w"
    and uy: "snd m \<le> snd u" and wy: "snd m \<le> snd w" and py: "snd p \<le> snd m"
    and wx: "snd w = snd m \<Longrightarrow> fst m \<le> fst w"
  shows False
proof -
  define u1 u2 w1 w2 p1 p2 where
    "u1 = fst u - fst m" and "u2 = snd u - snd m" and
    "w1 = fst w - fst m" and "w2 = snd w - snd m" and
    "p1 = fst p - fst m" and "p2 = snd p - snd m"
  note d = u1_def u2_def w1_def w2_def p1_def p2_def
  have e1: "cross u m p = u2 * p1 - u1 * p2"
    and e2: "cross m w p = w1 * p2 - w2 * p1"
    and e3: "cross u m w = u2 * w1 - u1 * w2"
    by (simp_all add: cross_def d algebra_simps)
  from uy wy py have s: "0 \<le> u2" "0 \<le> w2" "p2 \<le> 0" by (simp_all add: d)
  from c1 c2 c3 have f1: "0 < u2 * p1 - u1 * p2" and f2: "0 < w1 * p2 - w2 * p1"
    and f3: "0 \<le> u2 * w1 - u1 * w2" by (simp_all only: e1 e2 e3)
  have A: "0 \<le> w2 * (u2 * p1 - u1 * p2)"
    using s(2) f1 by (intro mult_nonneg_nonneg) simp_all
  have B: "0 \<le> u2 * (w1 * p2 - w2 * p1)"
    using s(1) f2 by (intro mult_nonneg_nonneg) simp_all
  have sum: "w2 * (u2 * p1 - u1 * p2) + u2 * (w1 * p2 - w2 * p1) =
             p2 * (u2 * w1 - u1 * w2)"
    by (simp add: algebra_simps)
  have "p2 * (u2 * w1 - u1 * w2) \<le> 0"
    using s(3) f3 by (intro mult_nonpos_nonneg) simp_all
  with A B sum have z: "w2 * (u2 * p1 - u1 * p2) = 0" "u2 * (w1 * p2 - w2 * p1) = 0"
    by linarith+
  from z(1) f1 have w2: "w2 = 0" by simp
  with wx have w1: "0 \<le> w1" by (simp add: d)
  from f2 w2 have "0 < w1 * p2" by simp
  moreover from w1 s(3) have "w1 * p2 \<le> 0" by (intro mult_nonneg_nonpos) simp_all
  ultimately show False by simp
qed

lemma lex_max_vertex:
  "(poly :: polygon) \<noteq> [] \<Longrightarrow>
   \<exists>m\<in>set poly. \<forall>v\<in>set poly. snd v \<le> snd m \<and> (snd v = snd m \<longrightarrow> fst v \<le> fst m)"
proof (induction poly rule: list_nonempty_induct)
  case (single v)
  show ?case by simp
next
  case (cons v vs)
  then obtain m where m: "m \<in> set vs"
    "\<forall>x\<in>set vs. snd x \<le> snd m \<and> (snd x = snd m \<longrightarrow> fst x \<le> fst m)" by blast
  show ?case
  proof (cases "snd v < snd m \<or> (snd v = snd m \<and> fst v \<le> fst m)")
    case True
    with m show ?thesis by (intro bexI[of _ m]) auto
  next
    case False
    then have gt: "snd m < snd v \<or> (snd v = snd m \<and> fst m < fst v)" by auto
    have "\<forall>x\<in>set (v # vs). snd x \<le> snd v \<and> (snd x = snd v \<longrightarrow> fst x \<le> fst v)"
    proof (intro ballI)
      fix x assume "x \<in> set (v # vs)"
      then consider "x = v" | "x \<in> set vs" by auto
      then show "snd x \<le> snd v \<and> (snd x = snd v \<longrightarrow> fst x \<le> fst v)"
      proof cases
        case 1
        then show ?thesis by simp
      next
        case 2
        with m(2) have "snd x \<le> snd m \<and> (snd x = snd m \<longrightarrow> fst x \<le> fst m)" by blast
        with gt show ?thesis by auto
      qed
    qed
    then show ?thesis by (intro bexI[of _ v]) simp_all
  qed
qed

lemma lex_min_vertex:
  "(poly :: polygon) \<noteq> [] \<Longrightarrow>
   \<exists>m\<in>set poly. \<forall>v\<in>set poly. snd m \<le> snd v \<and> (snd v = snd m \<longrightarrow> fst m \<le> fst v)"
proof (induction poly rule: list_nonempty_induct)
  case (single v)
  show ?case by simp
next
  case (cons v vs)
  then obtain m where m: "m \<in> set vs"
    "\<forall>x\<in>set vs. snd m \<le> snd x \<and> (snd x = snd m \<longrightarrow> fst m \<le> fst x)" by blast
  show ?case
  proof (cases "snd m < snd v \<or> (snd v = snd m \<and> fst m \<le> fst v)")
    case True
    with m show ?thesis by (intro bexI[of _ m]) auto
  next
    case False
    then have gt: "snd v < snd m \<or> (snd v = snd m \<and> fst v < fst m)" by auto
    have "\<forall>x\<in>set (v # vs). snd v \<le> snd x \<and> (snd x = snd v \<longrightarrow> fst v \<le> fst x)"
    proof (intro ballI)
      fix x assume "x \<in> set (v # vs)"
      then consider "x = v" | "x \<in> set vs" by auto
      then show "snd v \<le> snd x \<and> (snd x = snd v \<longrightarrow> fst v \<le> fst x)"
      proof cases
        case 1
        then show ?thesis by simp
      next
        case 2
        with m(2) have "snd m \<le> snd x \<and> (snd x = snd m \<longrightarrow> fst m \<le> fst x)" by blast
        with gt show ?thesis by auto
      qed
    qed
    then show ?thesis by (intro bexI[of _ v]) simp_all
  qed
qed

text \<open>A vertex with its two neighbours on the polygon.\<close>

lemma vertex_corner:
  assumes cv: "convex_ccw poly"
    and st: "\<forall>e\<in>set (polygon_edges poly). 0 < cross (fst e) (snd e) pt"
    and m: "m \<in> set poly"
  shows "\<exists>u\<in>set poly. \<exists>w\<in>set poly.
           0 < cross u m pt \<and> 0 < cross m w pt \<and> 0 \<le> cross u m w"
proof -
  let ?n = "length poly"
  from m obtain k where k: "k < ?n" "poly ! k = m" by (auto simp: in_set_conv_nth)
  let ?j = "(k + ?n - 1) mod ?n"
  from pred_index[OF k(1)] have j: "?j < ?n" "Suc ?j mod ?n = k" by simp_all
  from k(1) have "0 < ?n" by linarith
  then have sk: "Suc k mod ?n < ?n" by (rule mod_less_divisor)
  let ?u = "poly ! ?j" and ?w = "poly ! (Suc k mod ?n)"
  have ej: "(?u, m) \<in> set (polygon_edges poly)"
    using j k by (auto simp: in_polygon_edges)
  have ek: "(m, ?w) \<in> set (polygon_edges poly)"
    using k by (auto simp: in_polygon_edges)
  from j(1) sk have uw: "?u \<in> set poly" "?w \<in> set poly" by simp_all
  from st ej ek have "0 < cross ?u m pt" "0 < cross m ?w pt" by force+
  moreover from cv ej uw(2) have "0 \<le> cross ?u m ?w" by (force simp: convex_ccw_def)
  ultimately show ?thesis using uw by blast
qed

lemma upward_edge_exists:
  assumes ne: "poly \<noteq> []"
    and cv: "convex_ccw poly"
    and st: "\<forall>e\<in>set (polygon_edges poly). 0 < cross (fst e) (snd e) pt"
  shows "\<exists>i<length poly. snd (poly ! i) < snd pt \<and> snd pt \<le> snd (poly ! (Suc i mod length poly))"
proof -
  have below: "\<exists>v\<in>set poly. snd v < snd pt"
  proof (rule ccontr)
    assume "\<not> ?thesis"
    then have all: "\<forall>v\<in>set poly. snd pt \<le> snd v" by auto
    from lex_min_vertex[OF ne] obtain m where m: "m \<in> set poly"
      "\<forall>v\<in>set poly. snd m \<le> snd v \<and> (snd v = snd m \<longrightarrow> fst m \<le> fst v)" by blast
    from vertex_corner[OF cv st m(1)] obtain u w where uw: "u \<in> set poly" "w \<in> set poly"
      "0 < cross u m pt" "0 < cross m w pt" "0 \<le> cross u m w" by blast
    from corner_bottom[OF uw(3,4,5)] m uw(1,2) all show False by blast
  qed
  have above: "\<exists>v\<in>set poly. snd pt \<le> snd v"
  proof (rule ccontr)
    assume "\<not> ?thesis"
    then have all: "\<forall>v\<in>set poly. snd v < snd pt" by auto
    from lex_max_vertex[OF ne] obtain m where m: "m \<in> set poly"
      "\<forall>v\<in>set poly. snd v \<le> snd m \<and> (snd v = snd m \<longrightarrow> fst v \<le> fst m)" by blast
    from vertex_corner[OF cv st m(1)] obtain u w where uw: "u \<in> set poly" "w \<in> set poly"
      "0 < cross u m pt" "0 < cross m w pt" "0 \<le> cross u m w" by blast
    from corner_top[OF uw(3,4,5)] m uw(1,2) all show False by blast
  qed
  from below obtain i0 where i0: "i0 < length poly" "snd (poly ! i0) < snd pt"
    by (auto simp: in_set_conv_nth)
  from above obtain j0 where j0: "j0 < length poly" "\<not> snd (poly ! j0) < snd pt"
    by (auto simp: in_set_conv_nth not_less)
  from cyclic_change[of i0 "length poly" "\<lambda>i. snd (poly ! i) < snd pt" j0, OF i0 j0]
  show ?thesis by (auto simp: not_less)
qed

text \<open>Identities of the cross product, checked by expanding it.\<close>

lemma cross_same [simp]: "cross p z z = 0" "cross p z p = 0"
  by (simp_all add: cross_def)

lemma cross_between:
  "(snd w - snd z) * cross p z u + (snd z - snd u) * cross p z w =
   - (snd z - snd p) * cross u w z"
  by (simp add: cross_def algebra_simps)

lemma cross_on_line:
  "(snd z - snd u) * cross u w p =
   cross u w z * (snd p - snd u) - cross p z u * (snd w - snd u)"
  by (simp add: cross_def algebra_simps)

lemma cross_direction:
  "(snd w - snd u) * cross p z q =
   (cross u w p - cross u w z) * (snd q - snd p) + (cross u w q - cross u w p) * (snd z - snd p)"
  by (simp add: cross_def algebra_simps)

lemma cross_two_edges:
  "(snd d - y) * cross a b c + (y - snd c) * cross a b d +
   (snd b - y) * cross c d a + (y - snd a) * cross c d b = 0"
  by (simp add: cross_def algebra_simps)

lemma cross_same_height:
  assumes "cross a b d = 0" "snd d = snd b" "snd a \<noteq> snd b"
  shows "d = b"
proof -
  from assms(1,2) have "(snd b - snd a) * (fst b - fst d) = 0"
    by (simp add: cross_def algebra_simps)
  with assms(3) have "fst d = fst b" by simp
  with assms(2) show ?thesis by (simp add: prod_eq_iff)
qed

lemma nonneg_sum_zero:
  fixes a b x y :: real
  assumes "0 < a" "0 < b" "0 \<le> x" "0 \<le> y" "a * x + b * y = 0"
  shows "x = 0 \<and> y = 0"
proof -
  from assms(1,3) have ax: "0 \<le> a * x" by (intro mult_nonneg_nonneg) simp_all
  from assms(2,4) have by': "0 \<le> b * y" by (intro mult_nonneg_nonneg) simp_all
  from ax by' assms(5) have "a * x = 0" "b * y = 0" by linarith+
  with assms(1,2) show ?thesis by simp
qed

lemma edge_in_polygon:
  "i < length poly \<Longrightarrow> (poly ! i, poly ! (Suc i mod length poly)) \<in> set (polygon_edges poly)"
  by (auto simp: in_polygon_edges)

lemma succ_in_polygon:
  "i < length poly \<Longrightarrow> poly ! (Suc i mod length poly) \<in> set poly"
proof -
  assume "i < length poly"
  then have "0 < length poly" by linarith
  then have "Suc i mod length poly < length poly" by (rule mod_less_divisor)
  then show ?thesis by simp
qed

lemma succ_mod_inj:
  assumes "i < n" "j < n" "Suc i mod n = Suc j mod n"
  shows "i = j"
proof -
  have "Suc k mod n = (if Suc k = n then 0 else Suc k)" if "k < n" for k
    using that by (cases "Suc k = n") simp_all
  with assms show ?thesis by (auto split: if_splits)
qed

text \<open>
  No vertex lies strictly between the end points of an upward edge. If \<open>z\<close> did, the
  vertex \<open>p\<close> before \<open>z\<close> would be on the line of the edge and below \<open>z\<close>; then either
  \<open>p\<close> lies strictly inside the same edge, or the lower end point of the edge lies strictly
  inside the edge from \<open>p\<close> to \<open>z\<close>, and in both cases the vertex inside is lower than
  \<open>z\<close>: an induction on the number of vertices below the inner vertex.
\<close>

lemma no_inner_vertex:
  assumes d: "distinct poly" and cv: "convex_ccw poly"
    and st: "\<forall>e\<in>set (polygon_edges poly). 0 < cross (fst e) (snd e) pt"
  shows "i < length poly \<Longrightarrow> k < length poly \<Longrightarrow>
         snd (poly ! i) < snd (poly ! k) \<Longrightarrow>
         snd (poly ! k) < snd (poly ! (Suc i mod length poly)) \<Longrightarrow>
         cross (poly ! i) (poly ! (Suc i mod length poly)) (poly ! k) = 0 \<Longrightarrow> False"
proof (induction "card {m. m < length poly \<and> snd (poly ! m) < snd (poly ! k)}"
        arbitrary: i k rule: less_induct)
  case less
  let ?n = "length poly"
  define j where "j = (k + ?n - 1) mod ?n"
  from pred_index[OF less.prems(2)] have j: "j < ?n" "Suc j mod ?n = k" by (simp_all add: j_def)
  define u w z p where "u = poly ! i" and "w = poly ! (Suc i mod ?n)"
    and "z = poly ! k" and "p = poly ! j"
  note nm = u_def w_def z_def p_def
  from less.prems(3,4,5) have uz: "snd u < snd z" and zw: "snd z < snd w"
    and on: "cross u w z = 0" by (simp_all add: nm)
  have ei: "(u, w) \<in> set (polygon_edges poly)"
    using edge_in_polygon[OF less.prems(1)] by (simp add: nm)
  have ej: "(p, z) \<in> set (polygon_edges poly)"
    using edge_in_polygon[OF j(1)] j(2) by (simp add: nm)
  have uin: "u \<in> set poly" using less.prems(1) by (simp add: nm)
  have win: "w \<in> set poly" using succ_in_polygon[OF less.prems(1)] by (simp add: nm)
  from cv ej uin win have nn: "0 \<le> cross p z u" "0 \<le> cross p z w"
    by (force simp: convex_ccw_def)+
  from st ei ej have pos: "0 < cross u w pt" "0 < cross p z pt" by force+
  from cross_between[of w z p u] on
  have "(snd w - snd z) * cross p z u + (snd z - snd u) * cross p z w = 0" by simp
  from nonneg_sum_zero[OF _ _ nn this] uz zw have pzu: "cross p z u = 0" by simp
  from cross_on_line[of z u w p] on pzu have "(snd z - snd u) * cross u w p = 0" by simp
  with uz have uwp: "cross u w p = 0" by simp
  from cross_direction[of w u p z pt] on uwp
  have "(snd w - snd u) * cross p z pt = cross u w pt * (snd z - snd p)" by simp
  moreover from uz zw pos(2) have "0 < (snd w - snd u) * cross p z pt"
    by (intro mult_pos_pos) simp_all
  ultimately have "0 < cross u w pt * (snd z - snd p)" by simp
  with pos(1) have pz: "snd p < snd z" by (simp add: zero_less_mult_iff)
  have fin: "finite {m. m < ?n \<and> snd (poly ! m) < snd z}" by simp
  consider (inner) "snd u < snd p" | (same) "snd p = snd u" | (outer) "snd p < snd u"
    by linarith
  then show ?case
  proof cases
    case inner
    have "{m. m < ?n \<and> snd (poly ! m) < snd p} \<subset> {m. m < ?n \<and> snd (poly ! m) < snd z}"
    proof
      show "{m. m < ?n \<and> snd (poly ! m) < snd p} \<subseteq> {m. m < ?n \<and> snd (poly ! m) < snd z}"
        using pz by auto
      have "j \<in> {m. m < ?n \<and> snd (poly ! m) < snd z}" using j(1) pz by (simp add: nm)
      moreover have "j \<notin> {m. m < ?n \<and> snd (poly ! m) < snd p}" by (simp add: nm)
      ultimately show "{m. m < ?n \<and> snd (poly ! m) < snd p} \<noteq> {m. m < ?n \<and> snd (poly ! m) < snd z}"
        by blast
    qed
    from psubset_card_mono[OF fin this]
    have "card {m. m < ?n \<and> snd (poly ! m) < snd (poly ! j)}
            < card {m. m < ?n \<and> snd (poly ! m) < snd (poly ! k)}" by (simp add: nm)
    from less.hyps[OF this less.prems(1) j(1)] inner pz zw uwp show False
      by (simp add: nm)
  next
    case same
    from uz zw have "snd u \<noteq> snd w" by simp
    have "fst p = fst u"
    proof -
      from uwp same have "(snd w - snd u) * (fst p - fst u) = 0"
        by (simp add: cross_def algebra_simps)
      with \<open>snd u \<noteq> snd w\<close> show ?thesis by simp
    qed
    with same have "p = u" by (simp add: prod_eq_iff)
    with d j(1) less.prems(1) have "j = i" by (simp add: nm nth_eq_iff_index_eq)
    with j(2) have "z = w" by (simp add: nm)
    with zw show False by simp
  next
    case outer
    have "{m. m < ?n \<and> snd (poly ! m) < snd u} \<subset> {m. m < ?n \<and> snd (poly ! m) < snd z}"
    proof
      show "{m. m < ?n \<and> snd (poly ! m) < snd u} \<subseteq> {m. m < ?n \<and> snd (poly ! m) < snd z}"
        using uz by auto
      have "i \<in> {m. m < ?n \<and> snd (poly ! m) < snd z}" using less.prems(1) uz by (simp add: nm)
      moreover have "i \<notin> {m. m < ?n \<and> snd (poly ! m) < snd u}" by (simp add: nm)
      ultimately show "{m. m < ?n \<and> snd (poly ! m) < snd u} \<noteq> {m. m < ?n \<and> snd (poly ! m) < snd z}"
        by blast
    qed
    from psubset_card_mono[OF fin this]
    have "card {m. m < ?n \<and> snd (poly ! m) < snd (poly ! i)}
            < card {m. m < ?n \<and> snd (poly ! m) < snd (poly ! k)}" by (simp add: nm)
    from less.hyps[OF this j(1) less.prems(1)] outer uz pzu j(2) show False
      by (simp add: nm)
  qed
qed

text \<open>
  Two upward edges across the height of the point have their upper end points on each
  other's line (\<open>cross_two_edges\<close>: four non-negative terms that sum to zero), so one
  upper end point would lie strictly inside the other edge.
\<close>

lemma upward_edge_unique:
  assumes d: "distinct poly" and cv: "convex_ccw poly"
    and st: "\<forall>e\<in>set (polygon_edges poly). 0 < cross (fst e) (snd e) pt"
    and i: "i < length poly" and j: "j < length poly"
    and ui: "snd (poly ! i) < snd pt" "snd pt \<le> snd (poly ! (Suc i mod length poly))"
    and uj: "snd (poly ! j) < snd pt" "snd pt \<le> snd (poly ! (Suc j mod length poly))"
  shows "i = j"
proof (rule ccontr)
  assume ne: "i \<noteq> j"
  let ?n = "length poly"
  define a b c e where "a = poly ! i" and "b = poly ! (Suc i mod ?n)"
    and "c = poly ! j" and "e = poly ! (Suc j mod ?n)"
  note nm = a_def b_def c_def e_def
  from i have npos: "0 < ?n" by linarith
  then have si: "Suc i mod ?n < ?n" and sj: "Suc j mod ?n < ?n" by simp_all
  have ain: "a \<in> set poly" and cin: "c \<in> set poly" using i j by (simp_all add: nm)
  have bin: "b \<in> set poly" and ein: "e \<in> set poly"
    using succ_in_polygon[OF i] succ_in_polygon[OF j] by (simp_all add: nm)
  have eab: "(a, b) \<in> set (polygon_edges poly)" and ece: "(c, e) \<in> set (polygon_edges poly)"
    using edge_in_polygon[OF i] edge_in_polygon[OF j] by (simp_all add: nm)
  from cv eab cin ein have f: "0 \<le> cross a b c" "0 \<le> cross a b e"
    by (force simp: convex_ccw_def)+
  from cv ece ain bin have g: "0 \<le> cross c e a" "0 \<le> cross c e b"
    by (force simp: convex_ccw_def)+
  from ui uj have h: "snd a < snd pt" "snd pt \<le> snd b" "snd c < snd pt" "snd pt \<le> snd e"
    by (simp_all add: nm)
  have t1: "0 \<le> (snd e - snd pt) * cross a b c" using h f by (intro mult_nonneg_nonneg) simp_all
  have t2: "0 \<le> (snd pt - snd c) * cross a b e" using h f by (intro mult_nonneg_nonneg) simp_all
  have t3: "0 \<le> (snd b - snd pt) * cross c e a" using h g by (intro mult_nonneg_nonneg) simp_all
  have t4: "0 \<le> (snd pt - snd a) * cross c e b" using h g by (intro mult_nonneg_nonneg) simp_all
  from cross_two_edges[of e "snd pt" a b c] t1 t2 t3 t4
  have "(snd pt - snd c) * cross a b e = 0" "(snd pt - snd a) * cross c e b = 0" by linarith+
  with h have abe: "cross a b e = 0" and ceb: "cross c e b = 0" by simp_all
  have "e \<noteq> b"
  proof
    assume "e = b"
    with d si sj have "Suc i mod ?n = Suc j mod ?n" by (simp add: nm nth_eq_iff_index_eq)
    from succ_mod_inj[OF i j this] ne show False by simp
  qed
  consider (lt) "snd e < snd b" | (eq) "snd e = snd b" | (gt) "snd b < snd e" by linarith
  then show False
  proof cases
    case lt
    from no_inner_vertex[OF d cv st i sj] h lt abe show False by (simp add: nm)
  next
    case eq
    from h have "snd a \<noteq> snd b" by simp
    from cross_same_height[OF abe eq this] \<open>e \<noteq> b\<close> show False by simp
  next
    case gt
    from no_inner_vertex[OF d cv st j si] h gt ceb show False by (simp add: nm)
  qed
qed

lemma interior_ccw_true:
  assumes ne: "poly \<noteq> []" and d: "distinct poly" and cv: "convex_ccw poly"
    and st: "\<forall>e\<in>set (polygon_edges poly). 0 < cross (fst e) (snd e) pt"
  shows "check_point_in_polygon pt poly = Inr True"
proof -
  let ?n = "length poly"
  let ?up = "\<lambda>i. snd (poly ! i) < snd pt \<and> snd pt \<le> snd (poly ! (Suc i mod ?n))"
  from upward_edge_exists[OF ne cv st] obtain i0 where i0: "i0 < ?n" "?up i0" by blast
  have tog: "toggles pt (polygon_edges poly ! i) \<longleftrightarrow> ?up i" if "i < ?n" for i
  proof -
    from st edge_in_polygon[OF that]
    have "0 < cross (poly ! i) (poly ! (Suc i mod ?n)) pt" by force
    from toggles_upward[OF this] that show ?thesis by (simp add: nth_polygon_edges)
  qed
  have "{i. i < length (polygon_edges poly) \<and> toggles pt (polygon_edges poly ! i)} = {i0}"
  proof (intro set_eqI iffI)
    fix i assume "i \<in> {i. i < length (polygon_edges poly) \<and> toggles pt (polygon_edges poly ! i)}"
    then have i: "i < ?n" "?up i" using tog by auto
    from upward_edge_unique[OF d cv st i(1) i0(1)] i(2) i0(2) show "i \<in> {i0}" by simp
  next
    fix i assume "i \<in> {i0}"
    with i0 tog show "i \<in> {i. i < length (polygon_edges poly) \<and> toggles pt (polygon_edges poly ! i)}"
      by simp
  qed
  then have "length (filter (toggles pt) (polygon_edges poly)) = 1"
    by (simp add: length_filter_conv_card)
  with check_point_in_polygon_parity[OF ne, of pt] show ?thesis by simp
qed

subsection \<open>The reversed vertex order\<close>

lemma xinters_of_swap:
  "snd a \<noteq> snd b \<Longrightarrow> xinters_of pt b a = xinters_of pt a b"
  by (simp add: xinters_of_def field_simps)

lemma toggles_swap: "toggles pt (b, a) = toggles pt (a, b)"
proof (cases "(snd a < snd pt) \<noteq> (snd b < snd pt)")
  case True
  then have "snd a \<noteq> snd b" by auto
  from xinters_of_swap[OF this, of pt] show ?thesis
    by (auto simp: toggles_def reaches_toggle_test_iff max.commute)
next
  case False
  then show ?thesis by (auto simp: toggles_def reaches_toggle_test_iff)
qed

lemma cross_swap: "cross b a v = - cross a b v"
  by (simp add: cross_def algebra_simps)

lemma polygon_edges_rev_sub:
  assumes "e \<in> set (polygon_edges (rev poly))"
  shows "(snd e, fst e) \<in> set (polygon_edges poly)"
proof -
  let ?n = "length poly"
  from assms obtain i where i: "i < ?n" "e = (rev poly ! i, rev poly ! (Suc i mod ?n))"
    by (auto simp: in_polygon_edges)
  show ?thesis
  proof (cases "Suc i = ?n")
    case True
    from i(1) have "rev poly ! i = poly ! (?n - Suc i)" by (rule rev_nth)
    moreover from i(1) have "0 < ?n" by linarith
    then have "rev poly ! 0 = poly ! (?n - Suc 0)" by (rule rev_nth)
    ultimately have "e = (poly ! 0, poly ! (?n - 1))" using i(2) True by simp
    moreover from True[symmetric] have "Suc (?n - 1) mod ?n = 0" by simp
    moreover from True[symmetric] have "?n - 1 < ?n" by simp
    ultimately show ?thesis by (auto simp: in_polygon_edges)
  next
    case False
    with i(1) have lt: "Suc i < ?n" by simp
    then have "Suc i mod ?n = Suc i" by simp
    with i lt have e: "e = (poly ! (?n - Suc i), poly ! (?n - Suc (Suc i)))"
      by (simp add: rev_nth)
    from lt have "?n - Suc (Suc i) < ?n" "Suc (?n - Suc (Suc i)) mod ?n = ?n - Suc i"
      by (simp_all add: Suc_diff_Suc)
    with e show ?thesis by (auto simp: in_polygon_edges)
  qed
qed

lemma polygon_edges_rev:
  "set (polygon_edges (rev poly)) = (\<lambda>e. (snd e, fst e)) ` set (polygon_edges poly)"
proof (intro set_eqI iffI)
  fix e assume "e \<in> set (polygon_edges (rev poly))"
  from polygon_edges_rev_sub[OF this]
  show "e \<in> (\<lambda>e. (snd e, fst e)) ` set (polygon_edges poly)" by force
next
  fix e assume "e \<in> (\<lambda>e. (snd e, fst e)) ` set (polygon_edges poly)"
  then obtain e' where e': "e' \<in> set (polygon_edges poly)" "e = (snd e', fst e')" by blast
  from e'(1) have "e' \<in> set (polygon_edges (rev (rev poly)))" by simp
  from polygon_edges_rev_sub[OF this] e'(2) show "e \<in> set (polygon_edges (rev poly))" by simp
qed

lemma map_fst_polygon_edges: "map fst (polygon_edges poly) = poly"
  by (rule nth_equalityI) (simp_all add: nth_polygon_edges)

lemma distinct_polygon_edges: "distinct poly \<Longrightarrow> distinct (polygon_edges poly)"
  using map_fst_polygon_edges[of poly] by (metis distinct_map)

lemma toggles_count_rev:
  assumes d: "distinct poly"
  shows "length (filter (toggles pt) (polygon_edges (rev poly))) =
         length (filter (toggles pt) (polygon_edges poly))"
proof -
  let ?sw = "\<lambda>e :: point \<times> point. (snd e, fst e)"
  let ?S = "set (polygon_edges poly)"
  have inj: "inj_on ?sw A" for A by (auto simp: inj_on_def prod_eq_iff)
  have "{e. toggles pt e} \<inter> set (polygon_edges (rev poly)) = ?sw ` ({e. toggles pt e} \<inter> ?S)"
    unfolding polygon_edges_rev using toggles_swap[of pt] by (auto simp: image_iff)
  then have "card ({e. toggles pt e} \<inter> set (polygon_edges (rev poly))) =
             card ({e. toggles pt e} \<inter> ?S)"
    by (simp add: card_image[OF inj])
  moreover from d have "distinct (rev poly)" by simp
  ultimately show ?thesis
    using distinct_polygon_edges[OF d] distinct_polygon_edges[of "rev poly"]
    by (simp add: distinct_length_filter)
qed

lemma check_point_in_polygon_rev:
  assumes "poly \<noteq> []" "distinct poly"
  shows "check_point_in_polygon pt (rev poly) = check_point_in_polygon pt poly"
  using assms check_point_in_polygon_parity[of poly pt]
    check_point_in_polygon_parity[of "rev poly" pt] toggles_count_rev[of poly pt]
  by simp

lemma interior_cw_true:
  assumes ne: "poly \<noteq> []" and d: "distinct poly" and cv: "convex_cw poly"
    and st: "\<forall>e\<in>set (polygon_edges poly). cross (fst e) (snd e) pt < 0"
  shows "check_point_in_polygon pt poly = Inr True"
proof -
  have cv': "convex_ccw (rev poly)"
    unfolding convex_ccw_def
  proof (intro ballI)
    fix e v assume e: "e \<in> set (polygon_edges (rev poly))" and v: "v \<in> set (rev poly)"
    from polygon_edges_rev_sub[OF e] cv v have "cross (snd e) (fst e) v \<le> 0"
      by (force simp: convex_cw_def)
    with cross_swap[of "fst e" "snd e" v] show "0 \<le> cross (fst e) (snd e) v" by simp
  qed
  have st': "\<forall>e\<in>set (polygon_edges (rev poly)). 0 < cross (fst e) (snd e) pt"
  proof (intro ballI)
    fix e assume e: "e \<in> set (polygon_edges (rev poly))"
    from polygon_edges_rev_sub[OF e] st have "cross (snd e) (fst e) pt < 0" by force
    with cross_swap[of "fst e" "snd e" pt] show "0 < cross (fst e) (snd e) pt" by simp
  qed
  from ne d have "rev poly \<noteq> []" "distinct (rev poly)" by simp_all
  from interior_ccw_true[OF this cv' st'] check_point_in_polygon_rev[OF ne d, of pt]
  show ?thesis by simp
qed

section \<open>Lemmas about one tick\<close>

lemma check_zone_penetration_eq:
  "check_zone_penetration positions tid bb zones =
     (case zone_of bb zones of
        Inl e \<Rightarrow> Inl e
      | Inr r \<Rightarrow> Inr (r, AList.update tid (get_bbox_center bb) positions))"
  by (simp add: check_zone_penetration_def zone_of_def Let_def)

lemma zone_loop_False:
  "zone_loop c zs = Inr (False, z) \<Longrightarrow> z = - 1"
  by (induction c zs rule: zone_loop.induct) (auto split: sum.splits if_splits)

lemma penetration_of_Inr_iff:
  "penetration_of bb zones = Inr p \<longleftrightarrow> (\<exists>z. zone_of bb zones = Inr (p, z))"
  by (auto simp: penetration_of_def split: sum.splits)

subsection \<open>The first loop\<close>

lemma penetration_loop_Cons:
  assumes h: "penetration_loop now zones (t # ts) m = Inr m1"
  shows "\<exists>p zid m'. zone_of (trk_bbox t) zones = Inr (p, zid) \<and>
     penetration_loop now zones ts m' = Inr m1 \<and>
     map_of (active_alerts m') =
       (if p then (map_of (active_alerts m))(trk_id t \<mapsto>
          (case map_of (active_alerts m) (trk_id t) of
             None \<Rightarrow> \<lparr>track_id = trk_id t, zone_id = zid, entry_time = now,
                       last_seen_in_zone = now, is_active = True\<rparr>
           | Some a \<Rightarrow> a\<lparr>last_seen_in_zone := now, is_active := True\<rparr>))
        else map_of (active_alerts m)) \<and>
     (distinct (map fst (active_alerts m)) \<longrightarrow> distinct (map fst (active_alerts m')))"
proof (cases "zone_of (trk_bbox t) zones")
  case (Inl e)
  with h show ?thesis by (simp add: check_zone_penetration_eq)
next
  case (Inr r)
  obtain p zid where r: "r = (p, zid)" by (cases r)
  show ?thesis
  proof (cases p)
    case False
    with h Inr r have
      "penetration_loop now zones ts
         (m\<lparr>track_positions := AList.update (trk_id t) (get_bbox_center (trk_bbox t)) (track_positions m)\<rparr>)
       = Inr m1"
      by (simp add: check_zone_penetration_eq Let_def)
    with Inr r False show ?thesis
      by (intro exI[of _ False] exI[of _ zid]
          exI[of _ "m\<lparr>track_positions := AList.update (trk_id t) (get_bbox_center (trk_bbox t)) (track_positions m)\<rparr>"])
         simp
  next
    case True
    show ?thesis
    proof (cases "map_of (active_alerts m) (trk_id t)")
      case None
      with h Inr r True have
        "penetration_loop now zones ts
           (m\<lparr>track_positions := AList.update (trk_id t) (get_bbox_center (trk_bbox t)) (track_positions m),
              active_alerts := AList.update (trk_id t)
                 \<lparr>track_id = trk_id t, zone_id = zid, entry_time = now,
                  last_seen_in_zone = now, is_active = True\<rparr> (active_alerts m)\<rparr>)
         = Inr m1"
        by (simp add: check_zone_penetration_eq Let_def)
      with Inr r True None show ?thesis
        by (intro exI[of _ True] exI[of _ zid]
            exI[of _ "m\<lparr>track_positions := AList.update (trk_id t) (get_bbox_center (trk_bbox t)) (track_positions m),
              active_alerts := AList.update (trk_id t)
                 \<lparr>track_id = trk_id t, zone_id = zid, entry_time = now,
                  last_seen_in_zone = now, is_active = True\<rparr> (active_alerts m)\<rparr>"])
           (simp add: AList.update_conv' AList.distinct_update)
    next
      case (Some a)
      with h Inr r True have
        "penetration_loop now zones ts
           (m\<lparr>track_positions := AList.update (trk_id t) (get_bbox_center (trk_bbox t)) (track_positions m),
              active_alerts := AList.update (trk_id t)
                 (a\<lparr>last_seen_in_zone := now, is_active := True\<rparr>) (active_alerts m)\<rparr>)
         = Inr m1"
        by (simp add: check_zone_penetration_eq Let_def)
      with Inr r True Some show ?thesis
        by (intro exI[of _ True] exI[of _ zid]
            exI[of _ "m\<lparr>track_positions := AList.update (trk_id t) (get_bbox_center (trk_bbox t)) (track_positions m),
              active_alerts := AList.update (trk_id t)
                 (a\<lparr>last_seen_in_zone := now, is_active := True\<rparr>) (active_alerts m)\<rparr>"])
           (simp add: AList.update_conv' AList.distinct_update)
    qed
  qed
qed

lemma penetration_loop_no_hit:
  "penetration_loop now zones tracks m = Inr m1 \<Longrightarrow>
   \<forall>t\<in>set tracks. trk_id t = k \<longrightarrow> penetration_of (trk_bbox t) zones \<noteq> Inr True \<Longrightarrow>
   map_of (active_alerts m1) k = map_of (active_alerts m) k"
proof (induction tracks arbitrary: m)
  case Nil
  then show ?case by simp
next
  case (Cons t ts)
  from penetration_loop_Cons[OF Cons.prems(1)] obtain p zid m' where
    z: "zone_of (trk_bbox t) zones = Inr (p, zid)" and
    m': "penetration_loop now zones ts m' = Inr m1" and
    eq: "map_of (active_alerts m') =
       (if p then (map_of (active_alerts m))(trk_id t \<mapsto>
          (case map_of (active_alerts m) (trk_id t) of
             None \<Rightarrow> \<lparr>track_id = trk_id t, zone_id = zid, entry_time = now,
                       last_seen_in_zone = now, is_active = True\<rparr>
           | Some a \<Rightarrow> a\<lparr>last_seen_in_zone := now, is_active := True\<rparr>))
        else map_of (active_alerts m))"
    by blast
  from z Cons.prems(2) have "\<not> (p \<and> trk_id t = k)"
    by (auto simp: penetration_of_Inr_iff)
  with eq have "map_of (active_alerts m') k = map_of (active_alerts m) k" by auto
  moreover have "map_of (active_alerts m1) k = map_of (active_alerts m') k"
    using Cons.IH[OF m'] Cons.prems(2) by simp
  ultimately show ?case by simp
qed

lemma penetration_loop_keep_or_refresh:
  "penetration_loop now zones tracks m = Inr m1 \<Longrightarrow>
   map_of (active_alerts m) k = Some a \<Longrightarrow>
   map_of (active_alerts m1) k = Some a \<or>
   map_of (active_alerts m1) k = Some (a\<lparr>last_seen_in_zone := now, is_active := True\<rparr>)"
proof (induction tracks arbitrary: m a)
  case Nil
  then show ?case by simp
next
  case (Cons t ts)
  from penetration_loop_Cons[OF Cons.prems(1)] obtain p zid m' where
    m': "penetration_loop now zones ts m' = Inr m1" and
    eq: "map_of (active_alerts m') =
       (if p then (map_of (active_alerts m))(trk_id t \<mapsto>
          (case map_of (active_alerts m) (trk_id t) of
             None \<Rightarrow> \<lparr>track_id = trk_id t, zone_id = zid, entry_time = now,
                       last_seen_in_zone = now, is_active = True\<rparr>
           | Some a \<Rightarrow> a\<lparr>last_seen_in_zone := now, is_active := True\<rparr>))
        else map_of (active_alerts m))"
    by blast
  from eq Cons.prems(2) have "map_of (active_alerts m') k = Some a \<or>
         map_of (active_alerts m') k = Some (a\<lparr>last_seen_in_zone := now, is_active := True\<rparr>)"
    by (cases "p \<and> trk_id t = k") auto
  then show ?case
  proof
    assume "map_of (active_alerts m') k = Some a"
    from Cons.IH[OF m' this] show ?thesis .
  next
    assume "map_of (active_alerts m') k = Some (a\<lparr>last_seen_in_zone := now, is_active := True\<rparr>)"
    from Cons.IH[OF m' this] show ?thesis by auto
  qed
qed

lemma penetration_loop_refresh:
  "penetration_loop now zones tracks m = Inr m1 \<Longrightarrow>
   map_of (active_alerts m) k = Some a \<Longrightarrow>
   \<exists>t\<in>set tracks. trk_id t = k \<and> penetration_of (trk_bbox t) zones = Inr True \<Longrightarrow>
   map_of (active_alerts m1) k = Some (a\<lparr>last_seen_in_zone := now, is_active := True\<rparr>)"
proof (induction tracks arbitrary: m a)
  case Nil
  then show ?case by simp
next
  case (Cons t ts)
  from penetration_loop_Cons[OF Cons.prems(1)] obtain p zid m' where
    z: "zone_of (trk_bbox t) zones = Inr (p, zid)" and
    m': "penetration_loop now zones ts m' = Inr m1" and
    eq: "map_of (active_alerts m') =
       (if p then (map_of (active_alerts m))(trk_id t \<mapsto>
          (case map_of (active_alerts m) (trk_id t) of
             None \<Rightarrow> \<lparr>track_id = trk_id t, zone_id = zid, entry_time = now,
                       last_seen_in_zone = now, is_active = True\<rparr>
           | Some a \<Rightarrow> a\<lparr>last_seen_in_zone := now, is_active := True\<rparr>))
        else map_of (active_alerts m))"
    by blast
  show ?case
  proof (cases "p \<and> trk_id t = k")
    case True
    with eq Cons.prems(2)
    have "map_of (active_alerts m') k = Some (a\<lparr>last_seen_in_zone := now, is_active := True\<rparr>)"
      by auto
    from penetration_loop_keep_or_refresh[OF m' this] show ?thesis by auto
  next
    case False
    with eq Cons.prems(2) have e: "map_of (active_alerts m') k = Some a" by auto
    from False z Cons.prems(3)
    have "\<exists>t\<in>set ts. trk_id t = k \<and> penetration_of (trk_bbox t) zones = Inr True"
      by (auto simp: penetration_of_Inr_iff)
    from Cons.IH[OF m' e this] show ?thesis .
  qed
qed

lemma penetration_loop_create:
  "penetration_loop now zones (pre @ t # post) m = Inr m1 \<Longrightarrow>
   map_of (active_alerts m) (trk_id t) = None \<Longrightarrow>
   \<forall>u\<in>set pre. trk_id u = trk_id t \<longrightarrow> penetration_of (trk_bbox u) zones \<noteq> Inr True \<Longrightarrow>
   zone_of (trk_bbox t) zones = Inr (True, zid) \<Longrightarrow>
   map_of (active_alerts m1) (trk_id t) =
     Some \<lparr>track_id = trk_id t, zone_id = zid, entry_time = now,
           last_seen_in_zone = now, is_active = True\<rparr>"
proof (induction pre arbitrary: m)
  case Nil
  from Nil.prems(1) have "penetration_loop now zones (t # post) m = Inr m1" by simp
  from penetration_loop_Cons[OF this] Nil.prems(4) obtain m' where
    m': "penetration_loop now zones post m' = Inr m1" and
    eq: "map_of (active_alerts m') =
       (map_of (active_alerts m))(trk_id t \<mapsto>
          (case map_of (active_alerts m) (trk_id t) of
             None \<Rightarrow> \<lparr>track_id = trk_id t, zone_id = zid, entry_time = now,
                       last_seen_in_zone = now, is_active = True\<rparr>
           | Some a \<Rightarrow> a\<lparr>last_seen_in_zone := now, is_active := True\<rparr>))"
    by auto
  from eq Nil.prems(2) have "map_of (active_alerts m') (trk_id t) =
     Some \<lparr>track_id = trk_id t, zone_id = zid, entry_time = now,
           last_seen_in_zone = now, is_active = True\<rparr>" by simp
  from penetration_loop_keep_or_refresh[OF m' this] show ?case by auto
next
  case (Cons u pre)
  from Cons.prems(1) have "penetration_loop now zones (u # (pre @ t # post)) m = Inr m1" by simp
  from penetration_loop_Cons[OF this] obtain p z m' where
    z: "zone_of (trk_bbox u) zones = Inr (p, z)" and
    m': "penetration_loop now zones (pre @ t # post) m' = Inr m1" and
    eq: "map_of (active_alerts m') =
       (if p then (map_of (active_alerts m))(trk_id u \<mapsto>
          (case map_of (active_alerts m) (trk_id u) of
             None \<Rightarrow> \<lparr>track_id = trk_id u, zone_id = z, entry_time = now,
                       last_seen_in_zone = now, is_active = True\<rparr>
           | Some a \<Rightarrow> a\<lparr>last_seen_in_zone := now, is_active := True\<rparr>))
        else map_of (active_alerts m))"
    by blast
  from z Cons.prems(3) have "\<not> (p \<and> trk_id u = trk_id t)"
    by (auto simp: penetration_of_Inr_iff)
  with eq Cons.prems(2) have "map_of (active_alerts m') (trk_id t) = None" by auto
  from Cons.IH[OF m' this _ Cons.prems(4)] Cons.prems(3) show ?case by simp
qed

lemma penetration_loop_distinct:
  "penetration_loop now zones tracks m = Inr m1 \<Longrightarrow>
   distinct (map fst (active_alerts m)) \<Longrightarrow> distinct (map fst (active_alerts m1))"
proof (induction tracks arbitrary: m)
  case Nil
  then show ?case by simp
next
  case (Cons t ts)
  from penetration_loop_Cons[OF Cons.prems(1)] Cons.prems(2) obtain m' where
    m': "penetration_loop now zones ts m' = Inr m1" and
    d: "distinct (map fst (active_alerts m'))"
    by blast
  from Cons.IH[OF m' d] show ?case .
qed

lemma penetration_loop_no_error:
  "penetration_loop now zones tracks m = Inr m1 \<Longrightarrow> t \<in> set tracks \<Longrightarrow>
   \<exists>p. penetration_of (trk_bbox t) zones = Inr p"
proof (induction tracks arbitrary: m)
  case Nil
  then show ?case by simp
next
  case (Cons u us)
  from penetration_loop_Cons[OF Cons.prems(1)] obtain p z m' where
    z: "zone_of (trk_bbox u) zones = Inr (p, z)" and
    m': "penetration_loop now zones us m' = Inr m1"
    by blast
  show ?case
  proof (cases "t = u")
    case True
    with z show ?thesis by (auto simp: penetration_of_Inr_iff)
  next
    case False
    with Cons.prems(2) have "t \<in> set us" by simp
    from Cons.IH[OF m' this] show ?thesis .
  qed
qed

subsection \<open>The second loop\<close>

lemma find_track_id:
  "k \<in> trk_id ` set tracks \<Longrightarrow> \<exists>t. find (\<lambda>t. trk_id t = k) tracks = Some t \<and> t \<in> set tracks \<and> trk_id t = k"
  by (induction tracks) auto

lemma departure_step_absent:
  "k \<notin> trk_id ` set tracks \<Longrightarrow>
   departure_step now tracks zones (k, a) positions =
     Inr (a, positions, ALARM_DURATION \<le> now - last_seen_in_zone a)"
  by (simp add: departure_step_def)

lemma departure_step_observed:
  "find (\<lambda>t. trk_id t = k) tracks = Some t \<Longrightarrow>
   departure_step now tracks zones (k, a) positions =
     (case zone_of (trk_bbox t) zones of
        Inl e \<Rightarrow> Inl e
      | Inr (p, z) \<Rightarrow>
          Inr (if p then a else a\<lparr>is_active := False\<rparr>,
               AList.update k (get_bbox_center (trk_bbox t)) positions,
               \<not> p \<and> ALARM_DURATION \<le> now - last_seen_in_zone a))"
proof -
  assume f: "find (\<lambda>t. trk_id t = k) tracks = Some t"
  then have "k \<in> trk_id ` set tracks"
    by (auto simp: find_Some_iff)
  with f show ?thesis
    by (auto simp: departure_step_def check_zone_penetration_eq AList.dom_update
             split: sum.splits)
qed

lemma departure_loop_keys:
  "departure_loop now tracks zones items positions = Inr (items', positions', rm) \<Longrightarrow>
   map fst items' = map fst items"
proof (induction items arbitrary: positions items' positions' rm)
  case Nil
  then show ?case by simp
next
  case (Cons item items)
  then show ?case
    by (auto split: sum.splits prod.splits)
qed

lemma departure_loop_rm_subset:
  "departure_loop now tracks zones items positions = Inr (items', positions', rm) \<Longrightarrow>
   set rm \<subseteq> fst ` set items"
proof (induction items arbitrary: positions items' positions' rm)
  case Nil
  then show ?case by simp
next
  case (Cons item items)
  from Cons.prems obtain a' p1 ex its p2 r where
    "departure_loop now tracks zones items p1 = Inr (its, p2, r)"
    "rm = (if ex then [fst item] else []) @ r"
    by (auto split: sum.splits prod.splits)
  with Cons.IH[of p1 its p2 r] show ?case by auto
qed

lemma departure_loop_lookup:
  "departure_loop now tracks zones items positions = Inr (items', positions', rm) \<Longrightarrow>
   distinct (map fst items) \<Longrightarrow> map_of items k = Some a \<Longrightarrow>
   \<exists>pos a' pos' ex. departure_step now tracks zones (k, a) pos = Inr (a', pos', ex) \<and>
      map_of items' k = Some a' \<and> (k \<in> set rm \<longleftrightarrow> ex)"
proof (induction items arbitrary: positions items' positions' rm)
  case Nil
  then show ?case by simp
next
  case (Cons item items)
  obtain k0 a0 where item: "item = (k0, a0)" by (cases item)
  from Cons.prems(1) obtain a1 p1 ex1 its p2 r where
    st: "departure_step now tracks zones item positions = Inr (a1, p1, ex1)" and
    lp: "departure_loop now tracks zones items p1 = Inr (its, p2, r)" and
    items': "items' = (fst item, a1) # its" and
    rm: "rm = (if ex1 then [fst item] else []) @ r"
    by (auto split: sum.splits prod.splits)
  show ?case
  proof (cases "k = k0")
    case True
    with Cons.prems(3) item have a: "a = a0" by simp
    from Cons.prems(2) item have "k0 \<notin> fst ` set items" by simp
    with departure_loop_rm_subset[OF lp] have "k0 \<notin> set r" by auto
    with st item items' rm True a show ?thesis by auto
  next
    case False
    with Cons.prems(3) item have "map_of items k = Some a" by simp
    moreover from Cons.prems(2) have "distinct (map fst items)" by simp
    ultimately obtain pos a' pos' ex where
      "departure_step now tracks zones (k, a) pos = Inr (a', pos', ex)"
      "map_of its k = Some a'" "(k \<in> set r \<longleftrightarrow> ex)"
      using Cons.IH[OF lp] by blast
    with items' rm item False show ?thesis by auto
  qed
qed

lemma departure_loop_lookup_None:
  "departure_loop now tracks zones items positions = Inr (items', positions', rm) \<Longrightarrow>
   map_of items k = None \<Longrightarrow> map_of items' k = None"
proof -
  assume h: "departure_loop now tracks zones items positions = Inr (items', positions', rm)"
    and n: "map_of items k = None"
  from n have "k \<notin> fst ` set items" by (simp add: map_of_eq_None_iff)
  with departure_loop_keys[OF h] have "k \<notin> fst ` set items'"
    by (metis set_map)
  then show ?thesis by (simp add: map_of_eq_None_iff)
qed

subsection \<open>Removal\<close>

lemma remove_expired_alerts:
  "active_alerts (remove_expired rm m) = filter (\<lambda>p. fst p \<notin> set rm) (active_alerts m)"
proof (induction rm arbitrary: m)
  case Nil
  then show ?case by simp
next
  case (Cons k rm)
  have "active_alerts (remove_expired (k # rm) m) =
          filter (\<lambda>p. fst p \<notin> set rm) (AList.delete k (active_alerts m))"
    by (simp add: Cons.IH)
  also have "\<dots> = filter (\<lambda>p. fst p \<notin> set (k # rm)) (active_alerts m)"
    by (auto simp: AList.delete_eq case_prod_beta intro: filter_cong)
  finally show ?case .
qed

lemma map_of_filter_keys:
  "map_of (filter (\<lambda>p. fst p \<notin> S) al) k = (if k \<in> S then None else map_of al k)"
  by (induction al) auto

lemma cleanup_positions_alerts [simp]:
  "active_alerts (cleanup_positions tracks m) = active_alerts m"
  by (simp add: cleanup_positions_def Let_def)

subsection \<open>The whole tick, by the case of the track\<close>

lemma find_split:
  "find P xs = Some x \<Longrightarrow> \<exists>pre post. xs = pre @ x # post \<and> P x \<and> (\<forall>u\<in>set pre. \<not> P u)"
proof (induction xs)
  case Nil
  then show ?case by simp
next
  case (Cons y ys)
  show ?case
  proof (cases "P y")
    case True
    with Cons.prems have "y = x" by simp
    with True show ?thesis by (intro exI[of _ "[]"] exI[of _ ys]) simp
  next
    case False
    with Cons.prems have "find P ys = Some x" by simp
    from Cons.IH[OF this] obtain pre post where
      "ys = pre @ x # post" "P x" "\<forall>u\<in>set pre. \<not> P u" by blast
    with False show ?thesis by (intro exI[of _ "y # pre"] exI[of _ post]) simp
  qed
qed

lemma update_alerts_loops:
  assumes "update_alerts now tracks zones m = Inr (out, m')"
  shows "\<exists>m1 items pos rm.
    penetration_loop now zones tracks m = Inr m1 \<and>
    departure_loop now tracks zones (active_alerts m1) (track_positions m1) = Inr (items, pos, rm) \<and>
    active_alerts m' = filter (\<lambda>p. fst p \<notin> set rm) items \<and>
    out = fst ` set (active_alerts m')"
  using assms
  by (auto simp: update_alerts_def Let_def remove_expired_alerts split: sum.splits prod.splits)

lemma update_alerts_distinct:
  assumes "update_alerts now tracks zones m = Inr (out, m')"
    and "distinct (map fst (active_alerts m))"
  shows "distinct (map fst (active_alerts m'))"
proof -
  from update_alerts_loops[OF assms(1)] obtain m1 items pos rm where
    p1: "penetration_loop now zones tracks m = Inr m1" and
    p2: "departure_loop now tracks zones (active_alerts m1) (track_positions m1) = Inr (items, pos, rm)" and
    p3: "active_alerts m' = filter (\<lambda>p. fst p \<notin> set rm) items"
    by blast
  from penetration_loop_distinct[OF p1 assms(2)] departure_loop_keys[OF p2]
  have "distinct (map fst items)" by simp
  with p3 show ?thesis by (simp add: distinct_map_filter)
qed

lemma update_alerts_out:
  assumes "update_alerts now tracks zones m = Inr (out, m')"
  shows "k \<in> out \<longleftrightarrow> map_of (active_alerts m') k \<noteq> None"
proof -
  from update_alerts_loops[OF assms(1)] have "out = fst ` set (active_alerts m')" by blast
  then show ?thesis by (simp add: map_of_eq_None_iff)
qed

text \<open>
  After the first loop the alert of \<open>k\<close> is \<open>a1\<close>; the second loop runs its body on
  \<open>(k, a1)\<close>, and the removal keeps the result unless the body has put \<open>k\<close> on the
  removal list.
\<close>

lemma update_alerts_sweep:
  assumes u: "update_alerts now tracks zones m = Inr (out, m')"
    and d: "distinct (map fst (active_alerts m))"
  shows "\<exists>m1. penetration_loop now zones tracks m = Inr m1 \<and>
    (case map_of (active_alerts m1) k of
       None \<Rightarrow> map_of (active_alerts m') k = None
     | Some a1 \<Rightarrow> \<exists>pos a' pos' ex.
         departure_step now tracks zones (k, a1) pos = Inr (a', pos', ex) \<and>
         map_of (active_alerts m') k = (if ex then None else Some a'))"
proof -
  from update_alerts_loops[OF u] obtain m1 items pos rm where
    p1: "penetration_loop now zones tracks m = Inr m1" and
    p2: "departure_loop now tracks zones (active_alerts m1) (track_positions m1) = Inr (items, pos, rm)" and
    p3: "active_alerts m' = filter (\<lambda>p. fst p \<notin> set rm) items"
    by blast
  from penetration_loop_distinct[OF p1 d] have d1: "distinct (map fst (active_alerts m1))" .
  have look: "map_of (active_alerts m') k = (if k \<in> set rm then None else map_of items k)"
    by (simp add: p3 map_of_filter_keys)
  show ?thesis
  proof (cases "map_of (active_alerts m1) k")
    case None
    from departure_loop_lookup_None[OF p2 None] look have "map_of (active_alerts m') k = None"
      by simp
    with p1 None show ?thesis by simp
  next
    case (Some a1)
    from departure_loop_lookup[OF p2 d1 Some] obtain pos0 a' pos' ex where
      "departure_step now tracks zones (k, a1) pos0 = Inr (a', pos', ex)"
      "map_of items k = Some a'" "k \<in> set rm \<longleftrightarrow> ex" by blast
    with look have
      "departure_step now tracks zones (k, a1) pos0 = Inr (a', pos', ex) \<and>
       map_of (active_alerts m') k = (if ex then None else Some a')" by simp
    then have "\<exists>pos a' pos' ex.
         departure_step now tracks zones (k, a1) pos = Inr (a', pos', ex) \<and>
         map_of (active_alerts m') k = (if ex then None else Some a')" by blast
    with p1 Some show ?thesis by simp
  qed
qed

lemma update_alerts_absent:
  assumes u: "update_alerts now tracks zones m = Inr (out, m')"
    and d: "distinct (map fst (active_alerts m))"
    and k: "k \<notin> trk_id ` set tracks"
  shows "map_of (active_alerts m') k =
    (case map_of (active_alerts m) k of
       None \<Rightarrow> None
     | Some a \<Rightarrow> if ALARM_DURATION \<le> now - last_seen_in_zone a then None else Some a)"
proof -
  from update_alerts_sweep[OF u d, of k] obtain m1 where
    p1: "penetration_loop now zones tracks m = Inr m1" and
    sw: "(case map_of (active_alerts m1) k of
       None \<Rightarrow> map_of (active_alerts m') k = None
     | Some a1 \<Rightarrow> \<exists>pos a' pos' ex.
         departure_step now tracks zones (k, a1) pos = Inr (a', pos', ex) \<and>
         map_of (active_alerts m') k = (if ex then None else Some a'))" by blast
  from k have "\<forall>t\<in>set tracks. trk_id t = k \<longrightarrow> penetration_of (trk_bbox t) zones \<noteq> Inr True"
    by auto
  from penetration_loop_no_hit[OF p1 this]
  have e: "map_of (active_alerts m1) k = map_of (active_alerts m) k" .
  show ?thesis
  proof (cases "map_of (active_alerts m) k")
    case None
    with sw e show ?thesis by simp
  next
    case (Some a)
    with sw e k show ?thesis by (auto simp: departure_step_absent)
  qed
qed

lemma update_alerts_outside:
  assumes u: "update_alerts now tracks zones m = Inr (out, m')"
    and d: "distinct (map fst (active_alerts m))"
    and k: "k \<in> trk_id ` set tracks"
    and o: "\<forall>t\<in>set tracks. trk_id t = k \<longrightarrow> penetration_of (trk_bbox t) zones \<noteq> Inr True"
  shows "map_of (active_alerts m') k =
    (case map_of (active_alerts m) k of
       None \<Rightarrow> None
     | Some a \<Rightarrow> if ALARM_DURATION \<le> now - last_seen_in_zone a then None
                 else Some (a\<lparr>is_active := False\<rparr>))"
proof -
  from update_alerts_sweep[OF u d, of k] obtain m1 where
    p1: "penetration_loop now zones tracks m = Inr m1" and
    sw: "(case map_of (active_alerts m1) k of
       None \<Rightarrow> map_of (active_alerts m') k = None
     | Some a1 \<Rightarrow> \<exists>pos a' pos' ex.
         departure_step now tracks zones (k, a1) pos = Inr (a', pos', ex) \<and>
         map_of (active_alerts m') k = (if ex then None else Some a'))" by blast
  from penetration_loop_no_hit[OF p1 o]
  have e: "map_of (active_alerts m1) k = map_of (active_alerts m) k" .
  from find_track_id[OF k] obtain t where
    f: "find (\<lambda>t. trk_id t = k) tracks = Some t" and t: "t \<in> set tracks" "trk_id t = k" by blast
  from penetration_loop_no_error[OF p1 t(1)] o t
  have "penetration_of (trk_bbox t) zones = Inr False" by auto
  then obtain z where z: "zone_of (trk_bbox t) zones = Inr (False, z)"
    by (auto simp: penetration_of_Inr_iff)
  show ?thesis
  proof (cases "map_of (active_alerts m) k")
    case None
    with sw e show ?thesis by simp
  next
    case (Some a)
    with sw e show ?thesis by (auto simp: departure_step_observed[OF f] z)
  qed
qed

lemma update_alerts_inside:
  assumes u: "update_alerts now tracks zones m = Inr (out, m')"
    and d: "distinct (map fst (active_alerts m))"
    and f: "find (\<lambda>t. trk_id t = k) tracks = Some t"
    and z: "zone_of (trk_bbox t) zones = Inr (True, zid)"
  shows "map_of (active_alerts m') k =
    Some (case map_of (active_alerts m) k of
       None \<Rightarrow> \<lparr>track_id = k, zone_id = zid, entry_time = now,
                 last_seen_in_zone = now, is_active = True\<rparr>
     | Some a \<Rightarrow> a\<lparr>last_seen_in_zone := now, is_active := True\<rparr>)"
proof -
  from update_alerts_sweep[OF u d, of k] obtain m1 where
    p1: "penetration_loop now zones tracks m = Inr m1" and
    sw: "(case map_of (active_alerts m1) k of
       None \<Rightarrow> map_of (active_alerts m') k = None
     | Some a1 \<Rightarrow> \<exists>pos a' pos' ex.
         departure_step now tracks zones (k, a1) pos = Inr (a', pos', ex) \<and>
         map_of (active_alerts m') k = (if ex then None else Some a'))" by blast
  from find_split[OF f] obtain pre post where
    sp: "tracks = pre @ t # post" and tk: "trk_id t = k" and
    pre: "\<forall>u\<in>set pre. trk_id u \<noteq> k" by blast
  have e: "map_of (active_alerts m1) k =
    Some (case map_of (active_alerts m) k of
       None \<Rightarrow> \<lparr>track_id = k, zone_id = zid, entry_time = now,
                 last_seen_in_zone = now, is_active = True\<rparr>
     | Some a \<Rightarrow> a\<lparr>last_seen_in_zone := now, is_active := True\<rparr>)"
  proof (cases "map_of (active_alerts m) k")
    case None
    from p1 sp have "penetration_loop now zones (pre @ t # post) m = Inr m1" by simp
    from penetration_loop_create[OF this _ _ z] None tk pre show ?thesis by auto
  next
    case (Some a)
    from sp tk z have "\<exists>t\<in>set tracks. trk_id t = k \<and> penetration_of (trk_bbox t) zones = Inr True"
      by (auto simp: penetration_of_Inr_iff)
    from penetration_loop_refresh[OF p1 Some this] Some show ?thesis by simp
  qed
  with sw show ?thesis by (auto simp: departure_step_observed[OF f] z)
qed

lemma penetration_loop_hit:
  "penetration_loop now zones tracks m = Inr m1 \<Longrightarrow>
   \<exists>t\<in>set tracks. trk_id t = k \<and> penetration_of (trk_bbox t) zones = Inr True \<Longrightarrow>
   \<exists>a1. map_of (active_alerts m1) k = Some a1 \<and> last_seen_in_zone a1 = now"
proof (induction tracks arbitrary: m)
  case Nil
  then show ?case by simp
next
  case (Cons t ts)
  from penetration_loop_Cons[OF Cons.prems(1)] obtain p zid m' where
    z: "zone_of (trk_bbox t) zones = Inr (p, zid)" and
    m': "penetration_loop now zones ts m' = Inr m1" and
    eq: "map_of (active_alerts m') =
       (if p then (map_of (active_alerts m))(trk_id t \<mapsto>
          (case map_of (active_alerts m) (trk_id t) of
             None \<Rightarrow> \<lparr>track_id = trk_id t, zone_id = zid, entry_time = now,
                       last_seen_in_zone = now, is_active = True\<rparr>
           | Some a \<Rightarrow> a\<lparr>last_seen_in_zone := now, is_active := True\<rparr>))
        else map_of (active_alerts m))"
    by blast
  show ?case
  proof (cases "p \<and> trk_id t = k")
    case True
    with eq obtain x where x: "map_of (active_alerts m') k = Some x" "last_seen_in_zone x = now"
      by (cases "map_of (active_alerts m) k") auto
    from penetration_loop_keep_or_refresh[OF m' x(1)] x(2) show ?thesis by auto
  next
    case False
    from False z Cons.prems(2)
    have "\<exists>t\<in>set ts. trk_id t = k \<and> penetration_of (trk_bbox t) zones = Inr True"
      by (auto simp: penetration_of_Inr_iff)
    from Cons.IH[OF m' this] show ?thesis .
  qed
qed

lemma update_alerts_hit:
  assumes u: "update_alerts now tracks zones m = Inr (out, m')"
    and d: "distinct (map fst (active_alerts m))"
    and h: "\<exists>t\<in>set tracks. trk_id t = k \<and> penetration_of (trk_bbox t) zones = Inr True"
  shows "\<exists>a. map_of (active_alerts m') k = Some a \<and> last_seen_in_zone a = now"
proof -
  from update_alerts_sweep[OF u d, of k] obtain m1 where
    p1: "penetration_loop now zones tracks m = Inr m1" and
    sw: "(case map_of (active_alerts m1) k of
       None \<Rightarrow> map_of (active_alerts m') k = None
     | Some a1 \<Rightarrow> \<exists>pos a' pos' ex.
         departure_step now tracks zones (k, a1) pos = Inr (a', pos', ex) \<and>
         map_of (active_alerts m') k = (if ex then None else Some a'))" by blast
  from h obtain t where t: "t \<in> set tracks" "trk_id t = k"
    "penetration_of (trk_bbox t) zones = Inr True" by blast
  then obtain zid where z: "zone_of (trk_bbox t) zones = Inr (True, zid)"
    by (auto simp: penetration_of_Inr_iff)
  from penetration_loop_hit[OF p1 h]
  have "\<exists>a1. map_of (active_alerts m1) k = Some a1 \<and> last_seen_in_zone a1 = now" .
  then obtain a1 where a1: "map_of (active_alerts m1) k = Some a1" "last_seen_in_zone a1 = now"
    by blast
  from t have kin: "k \<in> trk_id ` set tracks" by auto
  from find_track_id[OF kin] obtain t0 where
    f: "find (\<lambda>t. trk_id t = k) tracks = Some t0" and t0: "t0 \<in> set tracks" by blast
  from penetration_loop_no_error[OF p1 t0] obtain p z0 where
    z0: "zone_of (trk_bbox t0) zones = Inr (p, z0)" by (auto simp: penetration_of_Inr_iff)
  from sw a1 show ?thesis
    by (auto simp: departure_step_observed[OF f] z0 ALARM_DURATION_def split: if_splits)
qed

subsection \<open>Unique track ids, zone order\<close>

lemma distinct_find_track:
  "distinct (map trk_id tracks) \<Longrightarrow> t \<in> set tracks \<Longrightarrow>
   find (\<lambda>u. trk_id u = trk_id t) tracks = Some t"
  by (induction tracks) (auto simp: image_iff)

lemma distinct_same_track:
  "distinct (map trk_id tracks) \<Longrightarrow> t \<in> set tracks \<Longrightarrow> u \<in> set tracks \<Longrightarrow>
   trk_id u = trk_id t \<Longrightarrow> u = t"
  by (auto simp: distinct_map dest: inj_onD)

lemma zone_loop_hit:
  "zone_loop c (enumerate n zs) = Inr (True, z) \<Longrightarrow>
   \<exists>j<length zs. z = int (n + j) \<and> check_point_in_polygon c (zs ! j) = Inr True \<and>
      (\<forall>j'<j. check_point_in_polygon c (zs ! j') = Inr False)"
proof (induction zs arbitrary: n)
  case Nil
  then show ?case by simp
next
  case (Cons z0 zs)
  show ?case
  proof (cases "check_point_in_polygon c z0")
    case (Inl e)
    with Cons.prems show ?thesis by simp
  next
    case (Inr hit)
    show ?thesis
    proof (cases hit)
      case True
      with Inr Cons.prems have "z = int n" by simp
      with Inr True show ?thesis by (intro exI[of _ 0]) simp
    next
      case False
      with Inr Cons.prems have "zone_loop c (enumerate (Suc n) zs) = Inr (True, z)" by simp
      from Cons.IH[OF this] obtain j where
        j: "j < length zs" "z = int (Suc n + j)" "check_point_in_polygon c (zs ! j) = Inr True"
           "\<forall>j'<j. check_point_in_polygon c (zs ! j') = Inr False" by blast
      have "\<forall>j'<Suc j. check_point_in_polygon c ((z0 # zs) ! j') = Inr False"
      proof (intro allI impI)
        fix j' assume "j' < Suc j"
        with j(4) Inr False show "check_point_in_polygon c ((z0 # zs) ! j') = Inr False"
          by (cases j') auto
      qed
      with j show ?thesis by (intro exI[of _ "Suc j"]) simp
    qed
  qed
qed

lemma zone_loop_miss:
  "zone_loop c (enumerate n zs) = Inr (False, z) \<Longrightarrow>
   \<forall>j<length zs. check_point_in_polygon c (zs ! j) = Inr False"
proof (induction zs arbitrary: n)
  case Nil
  then show ?case by simp
next
  case (Cons z0 zs)
  show ?case
  proof (cases "check_point_in_polygon c z0")
    case (Inl e)
    with Cons.prems show ?thesis by simp
  next
    case (Inr hit)
    with Cons.prems have h: "\<not> hit" and "zone_loop c (enumerate (Suc n) zs) = Inr (False, z)"
      by (auto split: if_splits)
    from Cons.IH[OF this(2)] have r: "\<forall>j<length zs. check_point_in_polygon c (zs ! j) = Inr False" .
    show ?thesis
    proof (intro allI impI)
      fix j assume "j < length (z0 # zs)"
      with r Inr h show "check_point_in_polygon c ((z0 # zs) ! j) = Inr False"
        by (cases j) auto
    qed
  qed
qed

lemma single_record:
  "distinct (map fst al) \<Longrightarrow> map_of al k = Some v \<Longrightarrow>
   length (filter (\<lambda>p. fst p = k) al) = 1"
proof (induction al)
  case Nil
  then show ?case by simp
next
  case (Cons p al)
  show ?case
  proof (cases "fst p = k")
    case True
    with Cons.prems(1) have "k \<notin> fst ` set al" by auto
    then have "filter (\<lambda>p. fst p = k) al = []"
      by (auto simp: filter_empty_conv)
    with True show ?thesis by simp
  next
    case False
    with Cons.prems have "map_of al k = Some v" "distinct (map fst al)"
      by (auto split: if_splits)
    with Cons.IH False show ?thesis by simp
  qed
qed

subsection \<open>Origin of a record, reachable managers\<close>

lemma departure_step_alert:
  "departure_step now tracks zones (k, a) pos = Inr (a', pos', ex) \<Longrightarrow>
   a' = a \<or> a' = a\<lparr>is_active := False\<rparr>"
proof (cases "k \<in> trk_id ` set tracks")
  case False
  assume "departure_step now tracks zones (k, a) pos = Inr (a', pos', ex)"
  with False show ?thesis by (simp add: departure_step_absent)
next
  case True
  assume h: "departure_step now tracks zones (k, a) pos = Inr (a', pos', ex)"
  from find_track_id[OF True] obtain t where f: "find (\<lambda>t. trk_id t = k) tracks = Some t"
    by blast
  from h show ?thesis
    by (auto simp: departure_step_observed[OF f] split: sum.splits prod.splits if_splits)
qed

lemma penetration_loop_from_None:
  "penetration_loop now zones tracks m = Inr m1 \<Longrightarrow>
   map_of (active_alerts m) k = None \<Longrightarrow> map_of (active_alerts m1) k = Some a1 \<Longrightarrow>
   entry_time a1 = now \<and> last_seen_in_zone a1 = now"
proof (induction tracks arbitrary: m)
  case Nil
  then show ?case by simp
next
  case (Cons t ts)
  from penetration_loop_Cons[OF Cons.prems(1)] obtain p zid m' where
    m': "penetration_loop now zones ts m' = Inr m1" and
    eq: "map_of (active_alerts m') =
       (if p then (map_of (active_alerts m))(trk_id t \<mapsto>
          (case map_of (active_alerts m) (trk_id t) of
             None \<Rightarrow> \<lparr>track_id = trk_id t, zone_id = zid, entry_time = now,
                       last_seen_in_zone = now, is_active = True\<rparr>
           | Some a \<Rightarrow> a\<lparr>last_seen_in_zone := now, is_active := True\<rparr>))
        else map_of (active_alerts m))"
    by blast
  show ?case
  proof (cases "p \<and> trk_id t = k")
    case True
    with eq Cons.prems(2) have "map_of (active_alerts m') k =
      Some \<lparr>track_id = trk_id t, zone_id = zid, entry_time = now,
                       last_seen_in_zone = now, is_active = True\<rparr>" by auto
    from penetration_loop_keep_or_refresh[OF m' this] Cons.prems(3) show ?thesis by auto
  next
    case False
    with eq Cons.prems(2) have "map_of (active_alerts m') k = None" by auto
    from Cons.IH[OF m' this Cons.prems(3)] show ?thesis .
  qed
qed

text \<open>Where the record of an id after a tick comes from.\<close>

lemma update_alerts_record_origin:
  assumes u: "update_alerts now tracks zones m = Inr (out, m')"
    and d: "distinct (map fst (active_alerts m))"
    and a': "map_of (active_alerts m') k = Some a'"
  shows "(case map_of (active_alerts m) k of
           None \<Rightarrow> entry_time a' = now \<and> last_seen_in_zone a' = now
         | Some a \<Rightarrow> entry_time a' = entry_time a \<and>
                     (last_seen_in_zone a' = last_seen_in_zone a \<or> last_seen_in_zone a' = now))"
proof -
  from update_alerts_sweep[OF u d, of k] obtain m1 where
    p1: "penetration_loop now zones tracks m = Inr m1" and
    sw: "(case map_of (active_alerts m1) k of
       None \<Rightarrow> map_of (active_alerts m') k = None
     | Some a1 \<Rightarrow> \<exists>pos a' pos' ex.
         departure_step now tracks zones (k, a1) pos = Inr (a', pos', ex) \<and>
         map_of (active_alerts m') k = (if ex then None else Some a'))" by blast
  from sw a' obtain a1 pos a2 pos' ex where
    a1: "map_of (active_alerts m1) k = Some a1" and
    st: "departure_step now tracks zones (k, a1) pos = Inr (a2, pos', ex)" and
    r: "map_of (active_alerts m') k = (if ex then None else Some a2)"
    by (cases "map_of (active_alerts m1) k") auto
  from r a' have "a' = a2" by (auto split: if_splits)
  with departure_step_alert[OF st] have e: "a' = a1 \<or> a' = a1\<lparr>is_active := False\<rparr>" by simp
  show ?thesis
  proof (cases "map_of (active_alerts m) k")
    case None
    from penetration_loop_from_None[OF p1 None a1] e None show ?thesis by auto
  next
    case (Some a)
    from penetration_loop_keep_or_refresh[OF p1 Some] a1 e Some show ?thesis by auto
  qed
qed

lemma reachable_at_invariant:
  "reachable_at t m \<Longrightarrow>
   distinct (map fst (active_alerts m)) \<and>
   (\<forall>k a. map_of (active_alerts m) k = Some a \<longrightarrow>
      entry_time a \<le> last_seen_in_zone a \<and> last_seen_in_zone a \<le> t)"
proof (induction rule: reachable_at.induct)
  case (fresh t)
  show ?case by (simp add: init_manager_def)
next
  case (tick t m now tracks zones out m')
  from tick.IH have d: "distinct (map fst (active_alerts m))" by simp
  have "\<forall>k a'. map_of (active_alerts m') k = Some a' \<longrightarrow>
      entry_time a' \<le> last_seen_in_zone a' \<and> last_seen_in_zone a' \<le> now"
  proof (intro allI impI)
    fix k a' assume a': "map_of (active_alerts m') k = Some a'"
    show "entry_time a' \<le> last_seen_in_zone a' \<and> last_seen_in_zone a' \<le> now"
    proof (cases "map_of (active_alerts m) k")
      case None
      with update_alerts_record_origin[OF tick.hyps(3) d a'] show ?thesis by simp
    next
      case (Some a)
      with tick.IH have "entry_time a \<le> last_seen_in_zone a" "last_seen_in_zone a \<le> t" by auto
      with update_alerts_record_origin[OF tick.hyps(3) d a'] Some tick.hyps(2)
      show ?thesis by auto
    qed
  qed
  with update_alerts_distinct[OF tick.hyps(3) d] show ?case by simp
qed

subsection \<open>Runs of ticks without a penetration\<close>

lemma update_alerts_no_hit:
  assumes u: "update_alerts now tracks zones m = Inr (out, m')"
    and d: "distinct (map fst (active_alerts m))"
    and o: "\<forall>t\<in>set tracks. trk_id t = k \<longrightarrow> penetration_of (trk_bbox t) zones \<noteq> Inr True"
  shows "map_of (active_alerts m') k =
    (case map_of (active_alerts m) k of
       None \<Rightarrow> None
     | Some a \<Rightarrow> if ALARM_DURATION \<le> now - last_seen_in_zone a then None
                 else Some (if k \<in> trk_id ` set tracks then a\<lparr>is_active := False\<rparr> else a))"
proof (cases "k \<in> trk_id ` set tracks")
  case True
  from update_alerts_outside[OF u d True o] True show ?thesis
    by (cases "map_of (active_alerts m) k") auto
next
  case False
  from update_alerts_absent[OF u d False] False show ?thesis
    by (cases "map_of (active_alerts m) k") auto
qed

lemma run_ticks_Cons:
  "run_ticks m (tk # rest) = Inr m' \<Longrightarrow>
   \<exists>out m1. update_alerts (fst tk) (fst (snd tk)) (snd (snd tk)) m = Inr (out, m1) \<and>
      run_ticks m1 rest = Inr m'"
  by (cases tk) (auto split: sum.splits)

lemma run_ticks_stays_absent:
  "run_ticks m ticks = Inr m' \<Longrightarrow> distinct (map fst (active_alerts m)) \<Longrightarrow>
   map_of (active_alerts m) k = None \<Longrightarrow>
   \<forall>tk\<in>set ticks. \<forall>t\<in>set (fst (snd tk)). trk_id t = k \<longrightarrow>
      penetration_of (trk_bbox t) (snd (snd tk)) \<noteq> Inr True \<Longrightarrow>
   map_of (active_alerts m') k = None"
proof (induction ticks arbitrary: m)
  case Nil
  then show ?case by simp
next
  case (Cons tk rest)
  from run_ticks_Cons[OF Cons.prems(1)] obtain out m1 where
    u: "update_alerts (fst tk) (fst (snd tk)) (snd (snd tk)) m = Inr (out, m1)" and
    r: "run_ticks m1 rest = Inr m'" by blast
  from Cons.prems(4) have o: "\<forall>t\<in>set (fst (snd tk)). trk_id t = k \<longrightarrow>
      penetration_of (trk_bbox t) (snd (snd tk)) \<noteq> Inr True" by simp
  from update_alerts_no_hit[OF u Cons.prems(2) o] Cons.prems(3)
  have "map_of (active_alerts m1) k = None" by simp
  from Cons.IH[OF r update_alerts_distinct[OF u Cons.prems(2)] this] Cons.prems(4)
  show ?case by simp
qed

lemma run_ticks_no_hit:
  "run_ticks m ticks = Inr m' \<Longrightarrow> distinct (map fst (active_alerts m)) \<Longrightarrow>
   map_of (active_alerts m) k = Some a \<Longrightarrow>
   \<forall>tk\<in>set ticks. \<forall>t\<in>set (fst (snd tk)). trk_id t = k \<longrightarrow>
      penetration_of (trk_bbox t) (snd (snd tk)) \<noteq> Inr True \<Longrightarrow>
   map_of (active_alerts m') k =
     (if \<forall>tk\<in>set ticks. fst tk - last_seen_in_zone a < ALARM_DURATION
      then Some (if \<exists>tk\<in>set ticks. k \<in> trk_id ` set (fst (snd tk))
                 then a\<lparr>is_active := False\<rparr> else a)
      else None)"
proof (induction ticks arbitrary: m a)
  case Nil
  then show ?case by simp
next
  case (Cons tk rest)
  from run_ticks_Cons[OF Cons.prems(1)] obtain out m1 where
    u: "update_alerts (fst tk) (fst (snd tk)) (snd (snd tk)) m = Inr (out, m1)" and
    r: "run_ticks m1 rest = Inr m'" by blast
  from Cons.prems(4) have o: "\<forall>t\<in>set (fst (snd tk)). trk_id t = k \<longrightarrow>
      penetration_of (trk_bbox t) (snd (snd tk)) \<noteq> Inr True"
    and orest: "\<forall>tk\<in>set rest. \<forall>t\<in>set (fst (snd tk)). trk_id t = k \<longrightarrow>
      penetration_of (trk_bbox t) (snd (snd tk)) \<noteq> Inr True" by simp_all
  note d1 = update_alerts_distinct[OF u Cons.prems(2)]
  from update_alerts_no_hit[OF u Cons.prems(2) o] Cons.prems(3)
  have m1: "map_of (active_alerts m1) k =
    (if ALARM_DURATION \<le> fst tk - last_seen_in_zone a then None
     else Some (if k \<in> trk_id ` set (fst (snd tk)) then a\<lparr>is_active := False\<rparr> else a))"
    by simp
  show ?case
  proof (cases "ALARM_DURATION \<le> fst tk - last_seen_in_zone a")
    case True
    with m1 have "map_of (active_alerts m1) k = None" by simp
    from run_ticks_stays_absent[OF r d1 this orest] True show ?thesis by auto
  next
    case False
    let ?a1 = "if k \<in> trk_id ` set (fst (snd tk)) then a\<lparr>is_active := False\<rparr> else a"
    from False m1 have s: "map_of (active_alerts m1) k = Some ?a1" by simp
    have l: "last_seen_in_zone ?a1 = last_seen_in_zone a" by simp
    from Cons.IH[OF r d1 s orest] False show ?thesis
      unfolding l by (cases "k \<in> trk_id ` set (fst (snd tk))") auto
  qed
qed

subsection \<open>A tick returns when no zone is empty\<close>

text \<open>
  The only exception a tick can raise is the \<^verbatim>\<open>IndexError\<close> of \<^verbatim>\<open>polygon[0]\<close> on
  an empty zone.
\<close>

lemma zone_loop_returns:
  "\<forall>z\<in>set zs. snd z \<noteq> [] \<Longrightarrow> \<exists>r. zone_loop c zs = Inr r"
proof (induction c zs rule: zone_loop.induct)
  case (1 c)
  show ?case by auto
next
  case (2 c zid zone rest)
  from "2.prems" have "zone \<noteq> []" by simp
  from check_point_in_polygon_returns[OF this, of c] obtain hit where
    h: "check_point_in_polygon c zone = Inr hit" by blast
  show ?case
  proof (cases hit)
    case True
    with h show ?thesis by auto
  next
    case False
    with "2.IH"[OF h False] "2.prems" h show ?thesis by auto
  qed
qed

lemma zone_of_returns:
  assumes "\<forall>z\<in>set zones. z \<noteq> []"
  shows "\<exists>r. zone_of bb zones = Inr r"
proof -
  have "\<forall>z\<in>set (enumerate 0 zones). snd z \<noteq> []"
  proof
    fix z assume "z \<in> set (enumerate 0 zones)"
    then have "snd z \<in> set (map snd (enumerate 0 zones))" by (simp del: map_snd_enumerate)
    with assms show "snd z \<noteq> []" by simp
  qed
  from zone_loop_returns[OF this] show ?thesis by (auto simp: zone_of_def)
qed

lemma penetration_loop_returns:
  assumes z: "\<forall>z\<in>set zones. z \<noteq> []"
  shows "\<exists>m1. penetration_loop now zones tracks m = Inr m1"
proof (induction tracks arbitrary: m)
  case Nil
  show ?case by auto
next
  case (Cons t ts)
  from zone_of_returns[OF z, of "trk_bbox t"] obtain p zid where
    r: "zone_of (trk_bbox t) zones = Inr (p, zid)" by force
  show ?case
    using Cons.IH r by (auto simp: check_zone_penetration_eq Let_def)
qed

lemma departure_step_returns:
  assumes z: "\<forall>z\<in>set zones. z \<noteq> []"
  shows "\<exists>r. departure_step now tracks zones item positions = Inr r"
proof -
  obtain k a where item: "item = (k, a)" by (cases item)
  show ?thesis
  proof (cases "k \<in> trk_id ` set tracks")
    case False
    then show ?thesis by (auto simp: item departure_step_absent)
  next
    case True
    from find_track_id[OF True] obtain t where f: "find (\<lambda>t. trk_id t = k) tracks = Some t"
      by blast
    from zone_of_returns[OF z, of "trk_bbox t"] obtain p zid where
      r: "zone_of (trk_bbox t) zones = Inr (p, zid)" by force
    show ?thesis by (auto simp: item departure_step_observed[OF f] r)
  qed
qed

lemma departure_loop_returns:
  assumes z: "\<forall>z\<in>set zones. z \<noteq> []"
  shows "\<exists>r. departure_loop now tracks zones items positions = Inr r"
proof (induction items arbitrary: positions)
  case Nil
  show ?case by auto
next
  case (Cons item items)
  from departure_step_returns[OF z, of now tracks item positions] obtain a' p1 ex where
    s: "departure_step now tracks zones item positions = Inr (a', p1, ex)"
    by (metis prod_cases3)
  from Cons.IH[of p1] obtain its p2 rm where
    "departure_loop now tracks zones items p1 = Inr (its, p2, rm)" by (metis prod_cases3)
  with s show ?case by auto
qed

lemma update_alerts_returns:
  assumes z: "\<forall>z\<in>set zones. z \<noteq> []"
  shows "\<exists>out m'. update_alerts now tracks zones m = Inr (out, m')"
proof -
  from penetration_loop_returns[OF z, of now tracks m] obtain m1 where
    p: "penetration_loop now zones tracks m = Inr m1" by blast
  from departure_loop_returns[OF z, of now tracks "active_alerts m1" "track_positions m1"]
  obtain its pos rm where
    "departure_loop now tracks zones (active_alerts m1) (track_positions m1) = Inr (its, pos, rm)"
    by (metis prod_cases3)
  with p show ?thesis by (auto simp: update_alerts_def Let_def)
qed

subsection \<open>Evaluating the scenario\<close>

lemmas scenario_eval =
  scenario_zone_def track_inside_def track_outside_def entered_alert_def departed_alert_def
  manager_entered_def manager_departed_def init_manager_def
  update_alerts_def check_zone_penetration_def zone_of_def penetration_of_def
  get_bbox_center_def check_point_in_polygon_def departure_step_def cleanup_positions_def
  ALARM_DURATION_def upt_rec

lemmas polygon_eval =
  convex_polygon_def convex_ccw_def convex_cw_def strictly_interior_def outside_extent_def
  polygon_edges_def cross_def scenario_zone_def check_point_in_polygon_def upt_rec

section \<open>Claims\<close>

text \<open>
  The statements about a tick are about a call that returns, \<open>Inr (out, m')\<close> with
  the returned set \<open>out\<close> and the manager \<open>m'\<close> after the call; by
  \<open>update_alerts_returns\<close> every call returns when no zone of the list is empty.
\<close>

text \<open>
  C1, in the part that the code and the claim share. A track whose record \<open>a\<close> was last
  refreshed inside a zone at time 0 (\<open>last_seen_in_zone a = 0\<close>), and which on every tick
  of a run is either not observed or observed with its center outside every zone: if every
  tick of the run had a clock reading below 3, the track is in the alerted set after the
  run, and its record is \<open>a\<close> with \<^verbatim>\<open>is_active\<close> cleared if the track was observed on
  some tick of the run, and \<open>a\<close> unchanged if it never was; if some tick of the run had a
  clock reading of 4 or more, the track is not in the alerted set after the run. Both hold
  alike for a track that left and for one that vanished. Nothing is stated here about a
  run whose latest clock reading lies from 3 up to 4.
\<close>

theorem grace_period_expiry:
  assumes r: "run_ticks m ticks = Inr m'"
    and d: "distinct (map fst (active_alerts m))"
    and a: "map_of (active_alerts m) k = Some a"
    and l: "last_seen_in_zone a = 0"
    and o: "\<forall>tk\<in>set ticks. \<forall>t\<in>set (fst (snd tk)). trk_id t = k \<longrightarrow>
              penetration_of (trk_bbox t) (snd (snd tk)) \<noteq> Inr True"
  shows "((\<forall>tk\<in>set ticks. fst tk < 3) \<longrightarrow>
            k \<in> get_alerted_tracks m' \<and>
            map_of (active_alerts m') k =
              Some (if \<exists>tk\<in>set ticks. k \<in> trk_id ` set (fst (snd tk))
                    then a\<lparr>is_active := False\<rparr> else a)) \<and>
         ((\<exists>tk\<in>set ticks. 4 \<le> fst tk) \<longrightarrow> k \<notin> get_alerted_tracks m')"
proof -
  have g: "k \<in> get_alerted_tracks m' \<longleftrightarrow> map_of (active_alerts m') k \<noteq> None"
    by (simp add: get_alerted_tracks_def map_of_eq_None_iff)
  have h: "map_of (active_alerts m') k =
      (if \<forall>tk\<in>set ticks. fst tk < 3
       then Some (if \<exists>tk\<in>set ticks. k \<in> trk_id ` set (fst (snd tk))
                  then a\<lparr>is_active := False\<rparr> else a)
       else None)"
    using run_ticks_no_hit[OF r d a o] l by (simp add: ALARM_DURATION_def)
  have "(\<exists>tk\<in>set ticks. 4 \<le> fst tk) \<Longrightarrow> \<not> (\<forall>tk\<in>set ticks. fst tk < 3)"
    by fastforce
  with h g show ?thesis by auto
qed

theorem grace_period_expiry_witness:
  "run_ticks manager_entered
     [(1, [track_outside], [scenario_zone]), (2, [track_outside], [scenario_zone])] =
     Inr manager_departed \<and>
   run_ticks manager_entered [(1, [], [scenario_zone]), (2, [], [scenario_zone])] =
     Inr \<lparr>active_alerts = [(7, entered_alert)], track_positions = []\<rparr> \<and>
   run_ticks manager_entered
     [(1, [track_outside], [scenario_zone]), (4, [track_outside], [scenario_zone])] =
     Inr \<lparr>active_alerts = [], track_positions = []\<rparr> \<and>
   distinct (map fst (active_alerts manager_entered)) \<and>
   map_of (active_alerts manager_entered) 7 = Some entered_alert \<and>
   last_seen_in_zone entered_alert = 0 \<and>
   penetration_of (trk_bbox track_outside) [scenario_zone] = Inr False \<and>
   7 \<in> get_alerted_tracks manager_departed \<and>
   map_of (active_alerts manager_departed) 7 = Some (entered_alert\<lparr>is_active := False\<rparr>) \<and>
   7 \<in> get_alerted_tracks \<lparr>active_alerts = [(7, entered_alert)], track_positions = []\<rparr> \<and>
   7 \<notin> get_alerted_tracks \<lparr>active_alerts = [], track_positions = []\<rparr>"
proof -
  have r1: "run_ticks manager_entered
     [(1, [track_outside], [scenario_zone]), (2, [track_outside], [scenario_zone])] =
     Inr manager_departed"
    by (simp add: scenario_eval)
  have r2: "run_ticks manager_entered [(1, [], [scenario_zone]), (2, [], [scenario_zone])] =
     Inr \<lparr>active_alerts = [(7, entered_alert)], track_positions = []\<rparr>"
    by (simp add: scenario_eval)
  have r3: "run_ticks manager_entered
     [(1, [track_outside], [scenario_zone]), (4, [track_outside], [scenario_zone])] =
     Inr \<lparr>active_alerts = [], track_positions = []\<rparr>"
    by (simp add: scenario_eval)
  have d: "distinct (map fst (active_alerts manager_entered))"
    by (simp add: manager_entered_def)
  have a: "map_of (active_alerts manager_entered) 7 = Some entered_alert"
    by (simp add: manager_entered_def)
  have l: "last_seen_in_zone entered_alert = 0" by (simp add: entered_alert_def)
  have p: "penetration_of (trk_bbox track_outside) [scenario_zone] = Inr False"
    by (simp add: scenario_eval)
  have o1: "\<forall>tk\<in>set [(1, [track_outside], [scenario_zone]), (2, [track_outside], [scenario_zone])].
              \<forall>t\<in>set (fst (snd tk)). trk_id t = 7 \<longrightarrow>
              penetration_of (trk_bbox t) (snd (snd tk)) \<noteq> Inr True"
    using p by simp
  have o2: "\<forall>tk\<in>set [(1::real, [] :: track list, [scenario_zone]), (2, [], [scenario_zone])].
              \<forall>t\<in>set (fst (snd tk)). trk_id t = 7 \<longrightarrow>
              penetration_of (trk_bbox t) (snd (snd tk)) \<noteq> Inr True"
    by simp
  have o3: "\<forall>tk\<in>set [(1, [track_outside], [scenario_zone]), (4, [track_outside], [scenario_zone])].
              \<forall>t\<in>set (fst (snd tk)). trk_id t = 7 \<longrightarrow>
              penetration_of (trk_bbox t) (snd (snd tk)) \<noteq> Inr True"
    using p by simp
  have i: "7 \<in> trk_id ` set [track_outside]" by (simp add: track_outside_def)
  from grace_period_expiry[OF r1 d a l o1] i
  have c1: "7 \<in> get_alerted_tracks manager_departed \<and>
     map_of (active_alerts manager_departed) 7 = Some (entered_alert\<lparr>is_active := False\<rparr>)"
    by simp
  from grace_period_expiry[OF r2 d a l o2]
  have c2: "7 \<in> get_alerted_tracks \<lparr>active_alerts = [(7, entered_alert)], track_positions = []\<rparr>"
    by simp
  from grace_period_expiry[OF r3 d a l o3]
  have c3: "7 \<notin> get_alerted_tracks \<lparr>active_alerts = [], track_positions = []\<rparr>"
    by simp
  from r1 r2 r3 d a l p c1 c2 c3 show ?thesis by blast
qed

text \<open>
  C1 as stated fails on the code. The record of a track that vanished after time 0 still
  has \<^verbatim>\<open>is_active = True\<close> at time 1: the loop of \<^verbatim>\<open>update_alerts\<close> writes nothing to the
  record of a track that is not observed, it only tests it for expiry. And the tick at
  time 3 comes before time 4, yet the track, inside at time 0 and outside at time 1, is no
  longer in the returned set: \<^verbatim>\<open>last_seen_in_zone\<close> is still 0 at that tick, the departure
  at time 1 having written \<^verbatim>\<open>is_active\<close> only.
\<close>

theorem grace_period_counterexample:
  "run_ticks init_manager
     [(0, [track_inside], [scenario_zone]), (1, [track_outside], [scenario_zone])] =
     Inr manager_departed \<and>
   update_alerts 3 [track_outside] [scenario_zone] manager_departed =
     Inr ({}, \<lparr>active_alerts = [], track_positions = []\<rparr>) \<and>
   run_ticks init_manager [(0, [track_inside], [scenario_zone]), (1, [], [scenario_zone])] =
     Inr \<lparr>active_alerts = [(7, entered_alert)], track_positions = []\<rparr> \<and>
   is_active entered_alert"
  by (simp add: scenario_eval)

text \<open>
  C2. After a call of \<^verbatim>\<open>update_alerts\<close> at time \<open>now\<close> the returned set is the key
  set of the ledger, and an id has a record if and only if some observation of that id
  had its center inside a zone on this tick, or the id had a record \<open>a\<close> before the call
  with \<open>now - last_seen_in_zone a < ALARM_DURATION\<close>. So a record is deleted on exactly
  the tick at which the track is not inside and \<open>now - last_seen_in_zone\<close> has reached
  \<^verbatim>\<open>ALARM_DURATION\<close>. The record of an id that is not observed is left as it is (no
  field is written) until that test deletes it.
\<close>

theorem record_present_iff:
  assumes u: "update_alerts now tracks zones m = Inr (out, m')"
    and d: "distinct (map fst (active_alerts m))"
  shows "(k \<in> out \<longleftrightarrow> map_of (active_alerts m') k \<noteq> None) \<and>
         (map_of (active_alerts m') k \<noteq> None \<longleftrightarrow>
            (\<exists>t\<in>set tracks. trk_id t = k \<and> penetration_of (trk_bbox t) zones = Inr True) \<or>
            (\<exists>a. map_of (active_alerts m) k = Some a \<and>
                 now - last_seen_in_zone a < ALARM_DURATION)) \<and>
         (k \<notin> trk_id ` set tracks \<longrightarrow>
            map_of (active_alerts m') k =
              (case map_of (active_alerts m) k of
                 None \<Rightarrow> None
               | Some a \<Rightarrow> if ALARM_DURATION \<le> now - last_seen_in_zone a then None else Some a))"
proof (intro conjI impI)
  show "k \<in> out \<longleftrightarrow> map_of (active_alerts m') k \<noteq> None"
    by (rule update_alerts_out[OF u])
next
  assume "k \<notin> trk_id ` set tracks"
  from update_alerts_absent[OF u d this]
  show "map_of (active_alerts m') k =
              (case map_of (active_alerts m) k of
                 None \<Rightarrow> None
               | Some a \<Rightarrow> if ALARM_DURATION \<le> now - last_seen_in_zone a then None else Some a)" .
next
  let ?hit = "\<exists>t\<in>set tracks. trk_id t = k \<and> penetration_of (trk_bbox t) zones = Inr True"
  show "map_of (active_alerts m') k \<noteq> None \<longleftrightarrow>
            ?hit \<or> (\<exists>a. map_of (active_alerts m) k = Some a \<and>
                 now - last_seen_in_zone a < ALARM_DURATION)"
  proof (cases ?hit)
    case True
    from update_alerts_hit[OF u d True] True show ?thesis by auto
  next
    case False
    then have o: "\<forall>t\<in>set tracks. trk_id t = k \<longrightarrow> penetration_of (trk_bbox t) zones \<noteq> Inr True"
      by blast
    show ?thesis
    proof (cases "k \<in> trk_id ` set tracks")
      case True
      from update_alerts_outside[OF u d True o] False show ?thesis
        by (cases "map_of (active_alerts m) k") auto
    next
      case nin: False
      from update_alerts_absent[OF u d nin] False show ?thesis
        by (cases "map_of (active_alerts m) k") auto
    qed
  qed
qed

theorem record_present_iff_witness:
  "update_alerts 3 [] [scenario_zone] manager_entered = Inr ({}, init_manager) \<and>
   update_alerts 2 [] [scenario_zone] manager_entered =
     Inr ({7}, \<lparr>active_alerts = [(7, entered_alert)], track_positions = []\<rparr>) \<and>
   distinct (map fst (active_alerts manager_entered)) \<and>
   7 \<notin> trk_id ` set [] \<and>
   map_of (active_alerts init_manager) 7 = None \<and>
   map_of (active_alerts \<lparr>active_alerts = [(7, entered_alert)], track_positions = []\<rparr>) 7 =
     Some entered_alert \<and>
   map_of (active_alerts manager_entered) 7 = Some entered_alert \<and>
   \<not> 3 - last_seen_in_zone entered_alert < ALARM_DURATION \<and>
   2 - last_seen_in_zone entered_alert < ALARM_DURATION"
proof -
  have u1: "update_alerts 3 [] [scenario_zone] manager_entered = Inr ({}, init_manager)"
    by (simp add: scenario_eval)
  have u2: "update_alerts 2 [] [scenario_zone] manager_entered =
     Inr ({7}, \<lparr>active_alerts = [(7, entered_alert)], track_positions = []\<rparr>)"
    by (simp add: scenario_eval)
  have d: "distinct (map fst (active_alerts manager_entered))"
    by (simp add: manager_entered_def)
  have a: "map_of (active_alerts manager_entered) 7 = Some entered_alert"
    by (simp add: manager_entered_def)
  have l: "last_seen_in_zone entered_alert = 0" by (simp add: entered_alert_def)
  from record_present_iff[OF u1 d, of 7] record_present_iff[OF u2 d, of 7] u1 u2 d a l
  show ?thesis by (simp add: ALARM_DURATION_def)
qed


text \<open>
  C3. \<^verbatim>\<open>get_alert_status\<close> returns \<open>(False, 0)\<close> for an id without a record,
  \<open>(True, 0)\<close> for a record with \<^verbatim>\<open>is_active\<close> set, and otherwise
  \<open>(remaining > 0, remaining)\<close> with
  \<open>remaining = max 0 (ALARM_DURATION - (now - last_seen_in_zone))\<close>. The source
  assigns to no attribute, so the embedding is a function of the manager that returns no
  new manager.
\<close>

theorem get_alert_status_cases:
  "(map_of (active_alerts m) tid = None \<longrightarrow> get_alert_status now m tid = (False, 0)) \<and>
   (\<forall>a. map_of (active_alerts m) tid = Some a \<and> is_active a \<longrightarrow>
        get_alert_status now m tid = (True, 0)) \<and>
   (\<forall>a. map_of (active_alerts m) tid = Some a \<and> \<not> is_active a \<longrightarrow>
        get_alert_status now m tid =
          (let remaining = max 0 (ALARM_DURATION - (now - last_seen_in_zone a))
           in (remaining > 0, remaining)))"
  by (simp add: get_alert_status_def Let_def)

theorem get_alert_status_cases_witness:
  "map_of (active_alerts init_manager) 7 = None \<and> get_alert_status 1 init_manager 7 = (False, 0) \<and>
   map_of (active_alerts \<lparr>active_alerts = [(7, departed_alert\<lparr>is_active := True\<rparr>)], track_positions = []\<rparr>) 7
     = Some (departed_alert\<lparr>is_active := True\<rparr>) \<and>
   is_active (departed_alert\<lparr>is_active := True\<rparr>) \<and>
   get_alert_status 1 \<lparr>active_alerts = [(7, departed_alert\<lparr>is_active := True\<rparr>)], track_positions = []\<rparr> 7 = (True, 0) \<and>
   map_of (active_alerts \<lparr>active_alerts = [(7, departed_alert)], track_positions = []\<rparr>) 7 = Some departed_alert \<and>
   \<not> is_active departed_alert \<and>
   get_alert_status 1 \<lparr>active_alerts = [(7, departed_alert)], track_positions = []\<rparr> 7 = (True, 2) \<and>
   get_alert_status 5 \<lparr>active_alerts = [(7, departed_alert)], track_positions = []\<rparr> 7 = (False, 0)"
  using get_alert_status_cases[of init_manager 7 1]
    get_alert_status_cases[of "\<lparr>active_alerts = [(7, departed_alert\<lparr>is_active := True\<rparr>)], track_positions = []\<rparr>" 7 1]
    get_alert_status_cases[of "\<lparr>active_alerts = [(7, departed_alert)], track_positions = []\<rparr>" 7 1]
    get_alert_status_cases[of "\<lparr>active_alerts = [(7, departed_alert)], track_positions = []\<rparr>" 7 5]
  by (simp add: init_manager_def departed_alert_def ALARM_DURATION_def Let_def)

text \<open>
  C4. A track with unique id that holds a record \<open>a\<close> and is observed on the tick:
  if its center is inside some zone, the record after the tick is \<open>a\<close> with
  \<^verbatim>\<open>last_seen_in_zone = now\<close> and \<^verbatim>\<open>is_active = True\<close> and every other field
  (among them \<^verbatim>\<open>entry_time\<close> and \<^verbatim>\<open>zone_id\<close>) as before; if it is outside every
  zone, the second loop writes \<^verbatim>\<open>is_active = False\<close> into the record and nothing
  else, and the ledger then holds that record, unless the expiry test of the same
  iteration (\<open>now - last_seen_in_zone \<ge> ALARM_DURATION\<close>) has put the id on the
  removal list.
\<close>

theorem existing_record_refresh_or_depart:
  assumes u: "update_alerts now tracks zones m = Inr (out, m')"
    and d: "distinct (map fst (active_alerts m))"
    and dt: "distinct (map trk_id tracks)"
    and t: "t \<in> set tracks"
    and a: "map_of (active_alerts m) (trk_id t) = Some a"
  shows "(penetration_of (trk_bbox t) zones = Inr True \<longrightarrow>
           map_of (active_alerts m') (trk_id t) =
             Some (a\<lparr>last_seen_in_zone := now, is_active := True\<rparr>)) \<and>
         (penetration_of (trk_bbox t) zones = Inr False \<longrightarrow>
           (\<forall>pos. departure_step now tracks zones (trk_id t, a) pos =
                   Inr (a\<lparr>is_active := False\<rparr>,
                        AList.update (trk_id t) (get_bbox_center (trk_bbox t)) pos,
                        ALARM_DURATION \<le> now - last_seen_in_zone a)) \<and>
           map_of (active_alerts m') (trk_id t) =
             (if ALARM_DURATION \<le> now - last_seen_in_zone a then None
              else Some (a\<lparr>is_active := False\<rparr>)))"
proof (intro conjI impI)
  assume "penetration_of (trk_bbox t) zones = Inr True"
  then obtain zid where "zone_of (trk_bbox t) zones = Inr (True, zid)"
    by (auto simp: penetration_of_Inr_iff)
  from update_alerts_inside[OF u d distinct_find_track[OF dt t] this] a
  show "map_of (active_alerts m') (trk_id t) =
             Some (a\<lparr>last_seen_in_zone := now, is_active := True\<rparr>)" by simp
next
  assume o: "penetration_of (trk_bbox t) zones = Inr False"
  then obtain z where z: "zone_of (trk_bbox t) zones = Inr (False, z)"
    by (auto simp: penetration_of_Inr_iff)
  show "\<forall>pos. departure_step now tracks zones (trk_id t, a) pos =
                   Inr (a\<lparr>is_active := False\<rparr>,
                        AList.update (trk_id t) (get_bbox_center (trk_bbox t)) pos,
                        ALARM_DURATION \<le> now - last_seen_in_zone a)"
    by (simp add: departure_step_observed[OF distinct_find_track[OF dt t]] z)
  from t have k: "trk_id t \<in> trk_id ` set tracks" by simp
  have "\<forall>u\<in>set tracks. trk_id u = trk_id t \<longrightarrow> penetration_of (trk_bbox u) zones \<noteq> Inr True"
  proof (intro ballI impI)
    fix u assume "u \<in> set tracks" "trk_id u = trk_id t"
    from distinct_same_track[OF dt t this] o
    show "penetration_of (trk_bbox u) zones \<noteq> Inr True" by simp
  qed
  from update_alerts_outside[OF u d k this] a
  show "map_of (active_alerts m') (trk_id t) =
             (if ALARM_DURATION \<le> now - last_seen_in_zone a then None
              else Some (a\<lparr>is_active := False\<rparr>))" by simp
qed

theorem existing_record_refresh_or_depart_witness:
  "update_alerts 1 [track_inside] [scenario_zone] manager_entered =
     Inr ({7}, \<lparr>active_alerts = [(7, entered_alert\<lparr>last_seen_in_zone := 1, is_active := True\<rparr>)],
               track_positions = [(7, (5, 5))]\<rparr>) \<and>
   update_alerts 1 [track_outside] [scenario_zone] manager_entered =
     Inr ({7}, \<lparr>active_alerts = [(7, entered_alert\<lparr>is_active := False\<rparr>)],
               track_positions = [(7, (25, 25))]\<rparr>) \<and>
   distinct (map fst (active_alerts manager_entered)) \<and>
   distinct (map trk_id [track_inside]) \<and> distinct (map trk_id [track_outside]) \<and>
   track_inside \<in> set [track_inside] \<and> track_outside \<in> set [track_outside] \<and>
   map_of (active_alerts manager_entered) 7 = Some entered_alert \<and>
   penetration_of (trk_bbox track_inside) [scenario_zone] = Inr True \<and>
   penetration_of (trk_bbox track_outside) [scenario_zone] = Inr False \<and>
   departure_step 1 [track_outside] [scenario_zone] (7, entered_alert) [] =
     Inr (entered_alert\<lparr>is_active := False\<rparr>, [(7, (25, 25))], False)"
proof -
  have u1: "update_alerts 1 [track_inside] [scenario_zone] manager_entered =
     Inr ({7}, \<lparr>active_alerts = [(7, entered_alert\<lparr>last_seen_in_zone := 1, is_active := True\<rparr>)],
               track_positions = [(7, (5, 5))]\<rparr>)"
    by (simp add: scenario_eval)
  have u2: "update_alerts 1 [track_outside] [scenario_zone] manager_entered =
     Inr ({7}, \<lparr>active_alerts = [(7, entered_alert\<lparr>is_active := False\<rparr>)],
               track_positions = [(7, (25, 25))]\<rparr>)"
    by (simp add: scenario_eval)
  have d: "distinct (map fst (active_alerts manager_entered))"
    by (simp add: manager_entered_def)
  have a1: "map_of (active_alerts manager_entered) (trk_id track_inside) = Some entered_alert"
    and a2: "map_of (active_alerts manager_entered) (trk_id track_outside) = Some entered_alert"
    by (simp_all add: manager_entered_def track_inside_def track_outside_def)
  have p1: "penetration_of (trk_bbox track_inside) [scenario_zone] = Inr True"
    and p2: "penetration_of (trk_bbox track_outside) [scenario_zone] = Inr False"
    by (simp_all add: scenario_eval)
  have l: "last_seen_in_zone entered_alert = 0" by (simp add: entered_alert_def)
  have i1: "trk_id track_inside = 7" and i2: "trk_id track_outside = 7"
    and c2: "get_bbox_center (trk_bbox track_outside) = (25, 25)"
    by (simp_all add: scenario_eval)
  have dt1: "distinct (map trk_id [track_inside])" and dt2: "distinct (map trk_id [track_outside])"
    and t1: "track_inside \<in> set [track_inside]" and t2: "track_outside \<in> set [track_outside]"
    by simp_all
  from existing_record_refresh_or_depart[OF u1 d dt1 t1 a1]
    existing_record_refresh_or_depart[OF u2 d dt2 t2 a2]
    u1 u2 d a1 a2 p1 p2 l i1 i2 c2
  show ?thesis by (simp add: ALARM_DURATION_def)
qed


text \<open>
  C5. The point tested against the zones is the center of the track's box,
  \<open>((x1 + x2) / 2, (y1 + y2) / 2)\<close>, computed from the box of the current tick. When
  the center of a track without a record lies inside zone \<open>i\<close>, the record created by
  the tick carries as \<^verbatim>\<open>zone_id\<close> the lowest index \<open>j \<le> i\<close> whose polygon contains
  the center: every zone before \<open>j\<close> tested false.
\<close>

theorem first_zone_recorded:
  assumes u: "update_alerts now tracks zones m = Inr (out, m')"
    and d: "distinct (map fst (active_alerts m))"
    and dt: "distinct (map trk_id tracks)"
    and t: "t \<in> set tracks"
    and n: "map_of (active_alerts m) (trk_id t) = None"
    and i: "i < length zones"
    and hit: "check_point_in_polygon (get_bbox_center (trk_bbox t)) (zones ! i) = Inr True"
  shows "get_bbox_center (trk_bbox t) =
           (case trk_bbox t of (x1, y1, x2, y2) \<Rightarrow> ((x1 + x2) / 2, (y1 + y2) / 2)) \<and>
         (\<exists>a j. map_of (active_alerts m') (trk_id t) = Some a \<and> zone_id a = int j \<and> j \<le> i \<and>
            check_point_in_polygon (get_bbox_center (trk_bbox t)) (zones ! j) = Inr True \<and>
            (\<forall>j'<j. check_point_in_polygon (get_bbox_center (trk_bbox t)) (zones ! j') = Inr False))"
proof
  show "get_bbox_center (trk_bbox t) =
           (case trk_bbox t of (x1, y1, x2, y2) \<Rightarrow> ((x1 + x2) / 2, (y1 + y2) / 2))"
    by (simp add: get_bbox_center_def Let_def split: prod.splits)
next
  let ?c = "get_bbox_center (trk_bbox t)"
  from update_alerts_loops[OF u] obtain m1 where
    p1: "penetration_loop now zones tracks m = Inr m1" by blast
  from penetration_loop_no_error[OF p1 t] obtain p z where
    z: "zone_of (trk_bbox t) zones = Inr (p, z)" by (auto simp: penetration_of_Inr_iff)
  have p: p
  proof (rule ccontr)
    assume "\<not> p"
    with z have "zone_loop ?c (enumerate 0 zones) = Inr (False, z)" by (simp add: zone_of_def)
    from zone_loop_miss[OF this] i hit show False by auto
  qed
  with z have zl: "zone_loop ?c (enumerate 0 zones) = Inr (True, z)" by (simp add: zone_of_def)
  from zone_loop_hit[OF zl] obtain j where
    j: "j < length zones" "z = int j" "check_point_in_polygon ?c (zones ! j) = Inr True"
       "\<forall>j'<j. check_point_in_polygon ?c (zones ! j') = Inr False" by auto
  have "j \<le> i"
  proof (rule ccontr)
    assume "\<not> j \<le> i"
    with j(4) hit show False by auto
  qed
  moreover from update_alerts_inside[OF u d distinct_find_track[OF dt t]] z p n
  have "map_of (active_alerts m') (trk_id t) =
     Some \<lparr>track_id = trk_id t, zone_id = z, entry_time = now,
           last_seen_in_zone = now, is_active = True\<rparr>" by simp
  ultimately show "\<exists>a j. map_of (active_alerts m') (trk_id t) = Some a \<and> zone_id a = int j \<and> j \<le> i \<and>
            check_point_in_polygon ?c (zones ! j) = Inr True \<and>
            (\<forall>j'<j. check_point_in_polygon ?c (zones ! j') = Inr False)"
    using j by (intro exI[of _ "\<lparr>track_id = trk_id t, zone_id = z, entry_time = now,
           last_seen_in_zone = now, is_active = True\<rparr>"] exI[of _ j]) simp
qed

theorem first_zone_recorded_witness:
  "update_alerts 0 [track_inside] [scenario_zone, scenario_zone] init_manager =
     Inr ({7}, manager_entered) \<and>
   distinct (map fst (active_alerts init_manager)) \<and>
   distinct (map trk_id [track_inside]) \<and> track_inside \<in> set [track_inside] \<and>
   map_of (active_alerts init_manager) (trk_id track_inside) = None \<and>
   (1::nat) < length [scenario_zone, scenario_zone] \<and>
   check_point_in_polygon (get_bbox_center (trk_bbox track_inside))
     ([scenario_zone, scenario_zone] ! 1) = Inr True \<and>
   get_bbox_center (trk_bbox track_inside) = (5, 5) \<and>
   (\<exists>a j. map_of (active_alerts manager_entered) (trk_id track_inside) = Some a \<and>
      zone_id a = int j \<and> j \<le> 1 \<and>
      check_point_in_polygon (get_bbox_center (trk_bbox track_inside))
        ([scenario_zone, scenario_zone] ! j) = Inr True \<and>
      (\<forall>j'<j. check_point_in_polygon (get_bbox_center (trk_bbox track_inside))
         ([scenario_zone, scenario_zone] ! j') = Inr False))"
proof -
  have u: "update_alerts 0 [track_inside] [scenario_zone, scenario_zone] init_manager =
     Inr ({7}, manager_entered)"
    by (simp add: scenario_eval)
  have d: "distinct (map fst (active_alerts init_manager))"
    by (simp add: init_manager_def)
  have dt: "distinct (map trk_id [track_inside])" by simp
  have t: "track_inside \<in> set [track_inside]" by simp
  have n: "map_of (active_alerts init_manager) (trk_id track_inside) = None"
    by (simp add: init_manager_def)
  have i: "(1::nat) < length [scenario_zone, scenario_zone]" by simp
  have h: "check_point_in_polygon (get_bbox_center (trk_bbox track_inside))
     ([scenario_zone, scenario_zone] ! 1) = Inr True"
    by (simp add: scenario_eval)
  have c: "get_bbox_center (trk_bbox track_inside) = (5, 5)"
    by (simp add: scenario_eval)
  from first_zone_recorded[OF u d dt t n i h] u d dt t n i h c show ?thesis
    by blast
qed


text \<open>
  C6. For a convex polygon with at least three (distinct) vertices, in either vertex
  order, \<^verbatim>\<open>check_point_in_polygon\<close> returns true for every point strictly on the inner
  side of every edge, and false for every point strictly outside the axis-aligned range
  of the vertices. Collinear neighbouring vertices are allowed. The second half holds
  for every non-empty polygon.
\<close>

theorem convex_containment:
  assumes c: "convex_polygon poly"
  shows "(strictly_interior pt poly \<longrightarrow> check_point_in_polygon pt poly = Inr True) \<and>
         (outside_extent pt poly \<longrightarrow> check_point_in_polygon pt poly = Inr False)"
proof -
  from c have ne: "poly \<noteq> []" and d: "distinct poly"
    by (auto simp: convex_polygon_def)
  show ?thesis
  proof (intro conjI impI)
    assume "strictly_interior pt poly"
    then consider
      "convex_ccw poly \<and> (\<forall>e\<in>set (polygon_edges poly). 0 < cross (fst e) (snd e) pt)" |
      "convex_cw poly \<and> (\<forall>e\<in>set (polygon_edges poly). cross (fst e) (snd e) pt < 0)"
      unfolding strictly_interior_def by blast
    then show "check_point_in_polygon pt poly = Inr True"
    proof cases
      case 1
      then show ?thesis using interior_ccw_true[OF ne d, of pt] by blast
    next
      case 2
      then show ?thesis using interior_cw_true[OF ne d, of pt] by blast
    qed
  next
    assume "outside_extent pt poly"
    from outside_extent_false[OF ne this]
    show "check_point_in_polygon pt poly = Inr False" .
  qed
qed

theorem convex_containment_witness:
  "convex_polygon scenario_zone \<and>
   strictly_interior (5, 5) scenario_zone \<and>
   check_point_in_polygon (5, 5) scenario_zone = Inr True \<and>
   outside_extent (25, 25) scenario_zone \<and>
   check_point_in_polygon (25, 25) scenario_zone = Inr False \<and>
   convex_polygon (rev scenario_zone) \<and>
   strictly_interior (5, 5) (rev scenario_zone) \<and>
   check_point_in_polygon (5, 5) (rev scenario_zone) = Inr True \<and>
   convex_polygon [(0, 0), (5, 0), (10, 0), (10, 10), (0, 10)] \<and>
   strictly_interior (2, 9) [(0, 0), (5, 0), (10, 0), (10, 10), (0, 10)] \<and>
   check_point_in_polygon (2, 9) [(0, 0), (5, 0), (10, 0), (10, 10), (0, 10)] = Inr True"
proof -
  have c: "convex_polygon scenario_zone" by (simp add: polygon_eval)
  have i: "strictly_interior (5, 5) scenario_zone" by (simp add: polygon_eval)
  have o: "outside_extent (25, 25) scenario_zone" by (simp add: polygon_eval)
  have c': "convex_polygon (rev scenario_zone)" by (simp add: polygon_eval)
  have i': "strictly_interior (5, 5) (rev scenario_zone)" by (simp add: polygon_eval)
  have c'': "convex_polygon [(0, 0), (5, 0), (10, 0), (10, 10), (0, 10)]"
    by (simp add: polygon_eval)
  have i'': "strictly_interior (2, 9) [(0, 0), (5, 0), (10, 0), (10, 10), (0, 10)]"
    by (simp add: polygon_eval)
  from convex_containment[OF c, of "(5, 5)"] convex_containment[OF c, of "(25, 25)"]
    convex_containment[OF c', of "(5, 5)"] convex_containment[OF c'', of "(2, 9)"]
    c i o c' i' c'' i''
  show ?thesis by simp
qed

text \<open>
  C7, as the code has it. No function of the repository raises a configuration error.
  A right click with fewer than three points leaves the marker and the file as they are;
  with three or more it registers the zone. \<^verbatim>\<open>Config.load_zones\<close> returns the zones
  of the file as they are, whatever their number of vertices.
\<close>

theorem short_zone_registration:
  "(length (current_zone_points mk) < 3 \<longrightarrow>
      mark_zones_callback EVENT_RBUTTONDOWN x y (mk, file) = (mk, file)) \<and>
   (length (current_zone_points mk) \<ge> 3 \<longrightarrow>
      mark_zones_callback EVENT_RBUTTONDOWN x y (mk, file) =
        (mk\<lparr>marked_zones := marked_zones mk @ [current_zone_points mk],
            current_zone_points := []\<rparr>,
         Document (Some (marked_zones mk @ [current_zone_points mk])))) \<and>
   load_zones (Document (Some zs)) = zs"
  by (simp add: mark_zones_callback_def save_zones_def Let_def)

theorem short_zone_registration_witness:
  "length (current_zone_points \<lparr>current_zone_points = [(0, 0), (10, 10)], marked_zones = []\<rparr>) < 3 \<and>
   mark_zones_callback EVENT_RBUTTONDOWN 0 0
     (\<lparr>current_zone_points = [(0, 0), (10, 10)], marked_zones = []\<rparr>, FileNotFound) =
     (\<lparr>current_zone_points = [(0, 0), (10, 10)], marked_zones = []\<rparr>, FileNotFound) \<and>
   length (current_zone_points \<lparr>current_zone_points = scenario_zone, marked_zones = []\<rparr>) \<ge> 3 \<and>
   mark_zones_callback EVENT_RBUTTONDOWN 0 0
     (\<lparr>current_zone_points = scenario_zone, marked_zones = []\<rparr>, FileNotFound) =
     (\<lparr>current_zone_points = [], marked_zones = [scenario_zone]\<rparr>,
      Document (Some [scenario_zone]))"
  using short_zone_registration[of "\<lparr>current_zone_points = [(0, 0), (10, 10)], marked_zones = []\<rparr>"
      0 0 FileNotFound "[]"]
    short_zone_registration[of "\<lparr>current_zone_points = scenario_zone, marked_zones = []\<rparr>"
      0 0 FileNotFound "[]"]
  by (simp add: scenario_zone_def)

text \<open>
  C7 as stated fails: a right click with two points returns without an error and
  changes nothing; and a zone of two vertices stored in the file is loaded without any
  error and handed to the caller, where the containment query on it answers "outside".
\<close>

theorem short_zone_counterexample:
  "mark_zones_callback EVENT_RBUTTONDOWN 0 0
     (\<lparr>current_zone_points = [(0, 0), (10, 10)], marked_zones = []\<rparr>, FileNotFound) =
     (\<lparr>current_zone_points = [(0, 0), (10, 10)], marked_zones = []\<rparr>, FileNotFound) \<and>
   load_zones (Document (Some [[(0, 0), (10, 10)]])) = [[(0, 0), (10, 10)]] \<and>
   check_zone_penetration [] 7 (0, 0, 10, 10) (load_zones (Document (Some [[(0, 0), (10, 10)]]))) =
     Inr ((False, - 1), [(7, (5, 5))])"
  by (simp add: scenario_eval mark_zones_callback_def)

text \<open>
  C8. In every manager reachable by calls of \<^verbatim>\<open>update_alerts\<close> with non-decreasing
  clock readings, every record has \<open>entry_time \<le> last_seen_in_zone\<close>. A further call
  at a clock reading not before the last one leaves a record that is either new, with
  both fields equal to \<open>now\<close>, or an old one with its \<^verbatim>\<open>entry_time\<close> unchanged and
  its \<^verbatim>\<open>last_seen_in_zone\<close> either unchanged or replaced by \<open>now\<close>, which is not
  smaller.
\<close>

theorem entry_time_le_last_seen:
  assumes r: "reachable_at t m"
  shows "((k, a) \<in> set (active_alerts m) \<longrightarrow> entry_time a \<le> last_seen_in_zone a) \<and>
         (t \<le> now \<and> update_alerts now tracks zones m = Inr (out, m') \<and>
          map_of (active_alerts m') k' = Some a' \<longrightarrow>
            (case map_of (active_alerts m) k' of
               None \<Rightarrow> entry_time a' = now \<and> last_seen_in_zone a' = now
             | Some a0 \<Rightarrow> entry_time a' = entry_time a0 \<and>
                 (last_seen_in_zone a' = last_seen_in_zone a0 \<or> last_seen_in_zone a' = now) \<and>
                 last_seen_in_zone a0 \<le> now))"
proof (intro conjI impI)
  assume i: "(k, a) \<in> set (active_alerts m)"
  from reachable_at_invariant[OF r] i have "map_of (active_alerts m) k = Some a"
    by simp
  with reachable_at_invariant[OF r] show "entry_time a \<le> last_seen_in_zone a" by blast
next
  assume h: "t \<le> now \<and> update_alerts now tracks zones m = Inr (out, m') \<and>
          map_of (active_alerts m') k' = Some a'"
  from reachable_at_invariant[OF r] have d: "distinct (map fst (active_alerts m))" by simp
  from h have u: "update_alerts now tracks zones m = Inr (out, m')"
    and a': "map_of (active_alerts m') k' = Some a'" and le: "t \<le> now" by simp_all
  show "case map_of (active_alerts m) k' of
               None \<Rightarrow> entry_time a' = now \<and> last_seen_in_zone a' = now
             | Some a0 \<Rightarrow> entry_time a' = entry_time a0 \<and>
                 (last_seen_in_zone a' = last_seen_in_zone a0 \<or> last_seen_in_zone a' = now) \<and>
                 last_seen_in_zone a0 \<le> now"
  proof (cases "map_of (active_alerts m) k'")
    case None
    with update_alerts_record_origin[OF u d a'] show ?thesis by simp
  next
    case (Some a0)
    with reachable_at_invariant[OF r] have "last_seen_in_zone a0 \<le> t" by blast
    with update_alerts_record_origin[OF u d a'] Some le show ?thesis by simp
  qed
qed

theorem entry_time_le_last_seen_witness:
  "reachable_at 0 manager_entered \<and>
   (7, entered_alert) \<in> set (active_alerts manager_entered) \<and>
   entry_time entered_alert \<le> last_seen_in_zone entered_alert \<and>
   (0::real) \<le> 1 \<and>
   update_alerts 1 [track_inside] [scenario_zone] manager_entered =
     Inr ({7}, \<lparr>active_alerts = [(7, entered_alert\<lparr>last_seen_in_zone := 1\<rparr>)],
               track_positions = [(7, (5, 5))]\<rparr>) \<and>
   map_of (active_alerts \<lparr>active_alerts = [(7, entered_alert\<lparr>last_seen_in_zone := 1\<rparr>)],
               track_positions = [(7, (5, 5))]\<rparr>) 7 = Some (entered_alert\<lparr>last_seen_in_zone := 1\<rparr>) \<and>
   map_of (active_alerts manager_entered) 7 = Some entered_alert \<and>
   entry_time (entered_alert\<lparr>last_seen_in_zone := 1\<rparr>) = entry_time entered_alert \<and>
   last_seen_in_zone (entered_alert\<lparr>last_seen_in_zone := 1\<rparr>) = 1"
proof -
  have u0: "update_alerts 0 [track_inside] [scenario_zone] init_manager = Inr ({7}, manager_entered)"
    by (simp add: scenario_eval)
  have u1: "update_alerts 1 [track_inside] [scenario_zone] manager_entered =
     Inr ({7}, \<lparr>active_alerts = [(7, entered_alert\<lparr>last_seen_in_zone := 1\<rparr>)],
               track_positions = [(7, (5, 5))]\<rparr>)"
    by (simp add: scenario_eval)
  have r0: "reachable_at 0 manager_entered"
    by (rule reachable_at.tick[OF reachable_at.fresh[of 0] _ u0]) simp
  have i: "(7, entered_alert) \<in> set (active_alerts manager_entered)"
    by (simp add: manager_entered_def)
  have a: "map_of (active_alerts manager_entered) 7 = Some entered_alert"
    by (simp add: manager_entered_def)
  from entry_time_le_last_seen[OF r0, of 7 entered_alert 1 "[track_inside]" "[scenario_zone]" "{7}"
      "\<lparr>active_alerts = [(7, entered_alert\<lparr>last_seen_in_zone := 1\<rparr>)],
               track_positions = [(7, (5, 5))]\<rparr>" 7 "entered_alert\<lparr>last_seen_in_zone := 1\<rparr>"]
    r0 i u1 a
  show ?thesis by simp
qed

text \<open>
  C9. Whenever an iteration of \<^verbatim>\<open>check_point_in_polygon\<close> arrives at the test
  \<^verbatim>\<open>p1x == p2x or x <= xinters\<close>, the edge is not horizontal, so \<^verbatim>\<open>xinters\<close>
  has been assigned in that same iteration: the step returns the toggle decided with the
  crossing of the current edge, whatever value (or none) \<^verbatim>\<open>xinters\<close> held before.
  An iteration that does not arrive there leaves the state as it is, and the function
  never raises \<^verbatim>\<open>UnboundLocalError\<close>.
\<close>

theorem xinters_assigned_before_read:
  "(reaches_toggle_test pt p1 p2 \<longrightarrow>
      snd p1 \<noteq> snd p2 \<and>
      edge_step pt (p1, ins, xi) p2 =
        Inr (p2, (if fst p1 = fst p2 \<or> fst pt \<le> xinters_of pt p1 p2 then \<not> ins else ins),
             Some (xinters_of pt p1 p2))) \<and>
   (\<not> reaches_toggle_test pt p1 p2 \<longrightarrow> edge_step pt (p1, ins, xi) p2 = Inr (p2, ins, xi)) \<and>
   check_point_in_polygon pt poly \<noteq> Inl UnboundLocalError"
proof (intro conjI impI)
  assume r: "reaches_toggle_test pt p1 p2"
  then show "snd p1 \<noteq> snd p2" by (auto simp: reaches_toggle_test_def)
  from r show "edge_step pt (p1, ins, xi) p2 =
        Inr (p2, (if fst p1 = fst p2 \<or> fst pt \<le> xinters_of pt p1 p2 then \<not> ins else ins),
             Some (xinters_of pt p1 p2))" by (rule edge_step_reached)
next
  assume "\<not> reaches_toggle_test pt p1 p2"
  then show "edge_step pt (p1, ins, xi) p2 = Inr (p2, ins, xi)" by (rule edge_step_skipped)
next
  show "check_point_in_polygon pt poly \<noteq> Inl UnboundLocalError"
  proof (cases poly)
    case Nil
    then show ?thesis by (simp add: check_point_in_polygon_def)
  next
    case (Cons p0 ps)
    then have "poly \<noteq> []" by simp
    from check_point_in_polygon_returns[OF this, of pt] show ?thesis by auto
  qed
qed

theorem xinters_assigned_before_read_witness:
  "reaches_toggle_test (5, 5) (10, 0) (10, 10) \<and> snd ((10, 0) :: point) \<noteq> snd ((10, 10) :: point) \<and>
   edge_step (5, 5) ((10, 0), False, None) (10, 10) = Inr ((10, 10), True, Some 10) \<and>
   \<not> reaches_toggle_test (5, 5) (0, 0) (10, 0) \<and>
   edge_step (5, 5) ((0, 0), False, None) (10, 0) = Inr ((10, 0), False, None) \<and>
   check_point_in_polygon (5, 5) scenario_zone = Inr True"
  using xinters_assigned_before_read[of "(5, 5)" "(10, 0)" "(10, 10)" False None scenario_zone]
    xinters_assigned_before_read[of "(5, 5)" "(0, 0)" "(10, 0)" False None scenario_zone]
  by (simp add: reaches_toggle_test_def xinters_of_def scenario_zone_def check_point_in_polygon_def upt_rec)

text \<open>
  C10. A track with unique id whose record \<open>a\<close> has \<^verbatim>\<open>is_active = False\<close> and whose
  center is inside some zone on the tick: the record after the tick is active again with
  \<^verbatim>\<open>last_seen_in_zone = now\<close>, it has the \<^verbatim>\<open>entry_time\<close>, \<^verbatim>\<open>zone_id\<close> and
  \<^verbatim>\<open>track_id\<close> of \<open>a\<close>, and it is the only record of that id.
\<close>

theorem departed_record_reactivated:
  assumes u: "update_alerts now tracks zones m = Inr (out, m')"
    and d: "distinct (map fst (active_alerts m))"
    and dt: "distinct (map trk_id tracks)"
    and t: "t \<in> set tracks"
    and a: "map_of (active_alerts m) (trk_id t) = Some a"
    and na: "\<not> is_active a"
    and p: "penetration_of (trk_bbox t) zones = Inr True"
  shows "\<exists>a'. map_of (active_alerts m') (trk_id t) = Some a' \<and>
           is_active a' \<and> last_seen_in_zone a' = now \<and>
           entry_time a' = entry_time a \<and> zone_id a' = zone_id a \<and> track_id a' = track_id a \<and>
           length (filter (\<lambda>p. fst p = trk_id t) (active_alerts m')) = 1"
proof -
  from p obtain zid where "zone_of (trk_bbox t) zones = Inr (True, zid)"
    by (auto simp: penetration_of_Inr_iff)
  from update_alerts_inside[OF u d distinct_find_track[OF dt t] this] a
  have l: "map_of (active_alerts m') (trk_id t) =
             Some (a\<lparr>last_seen_in_zone := now, is_active := True\<rparr>)" by simp
  from update_alerts_distinct[OF u d] have d': "distinct (map fst (active_alerts m'))" .
  from single_record[OF d' l]
  have "length (filter (\<lambda>p. fst p = trk_id t) (active_alerts m')) = 1" .
  with l show ?thesis by simp
qed

theorem departed_record_reactivated_witness:
  "update_alerts 2 [track_inside] [scenario_zone] manager_departed =
     Inr ({7}, \<lparr>active_alerts = [(7, departed_alert\<lparr>last_seen_in_zone := 2, is_active := True\<rparr>)],
               track_positions = [(7, (5, 5))]\<rparr>) \<and>
   distinct (map fst (active_alerts manager_departed)) \<and>
   distinct (map trk_id [track_inside]) \<and> track_inside \<in> set [track_inside] \<and>
   map_of (active_alerts manager_departed) (trk_id track_inside) = Some departed_alert \<and>
   \<not> is_active departed_alert \<and>
   penetration_of (trk_bbox track_inside) [scenario_zone] = Inr True \<and>
   (\<exists>a'. map_of (active_alerts
            \<lparr>active_alerts = [(7, departed_alert\<lparr>last_seen_in_zone := 2, is_active := True\<rparr>)],
             track_positions = [(7, (5, 5))]\<rparr>) (trk_id track_inside) = Some a' \<and>
      is_active a' \<and> last_seen_in_zone a' = 2 \<and> entry_time a' = entry_time departed_alert \<and>
      zone_id a' = zone_id departed_alert \<and> track_id a' = track_id departed_alert)"
proof -
  have u: "update_alerts 2 [track_inside] [scenario_zone] manager_departed =
     Inr ({7}, \<lparr>active_alerts = [(7, departed_alert\<lparr>last_seen_in_zone := 2, is_active := True\<rparr>)],
               track_positions = [(7, (5, 5))]\<rparr>)"
    by (simp add: scenario_eval)
  have d: "distinct (map fst (active_alerts manager_departed))"
    by (simp add: manager_departed_def)
  have dt: "distinct (map trk_id [track_inside])" by simp
  have t: "track_inside \<in> set [track_inside]" by simp
  have a: "map_of (active_alerts manager_departed) (trk_id track_inside) = Some departed_alert"
    by (simp add: manager_departed_def track_inside_def)
  have na: "\<not> is_active departed_alert" by (simp add: departed_alert_def)
  have p: "penetration_of (trk_bbox track_inside) [scenario_zone] = Inr True"
    by (simp add: scenario_eval)
  from departed_record_reactivated[OF u d dt t a na p] u d dt t a na p show ?thesis
    by blast
qed


end
